theory Spec2Isabelle
  imports Main "HOL-Library.FSet" "HOL-Library.Finite_Map" "HOL-Library.Sublist"
begin

section \<open>Python string operations used by the scraper\<close>

text \<open>
  Strings are byte strings (\<open>char list\<close>).  The operations below are the ones
  \<open>src/main.py\<close> applies to URLs and file names: \<open>str.startswith\<close> is
  \<^const>\<open>prefix\<close>, \<open>str.endswith\<close> is \<^const>\<open>suffix\<close>.
\<close>

type_synonym url = string
type_synonym exn = string

text \<open>\<open>str.lower()\<close> on the ASCII range; other bytes are left alone.\<close>

definition lower_char :: "char \<Rightarrow> char" where
  "lower_char c =
     (let n = (of_char c :: nat)
      in if 65 \<le> n \<and> n \<le> 90 then char_of (n + 32) else c)"

definition lower :: "string \<Rightarrow> string" where
  "lower s = map lower_char s"

text \<open>
  \<open>str.strip()\<close>: removes leading and trailing white space, here the ASCII
  characters for which \<open>str.isspace\<close> holds.  White space outside ASCII is not
  modelled; no result below depends on what \<open>strip\<close> removes.
\<close>

definition is_space :: "char \<Rightarrow> bool" where
  "is_space c = (c \<in> set [CHR '' '', CHR 0x09, CHR 0x0A, CHR 0x0B, CHR 0x0C, CHR 0x0D,
                            CHR 0x1C, CHR 0x1D, CHR 0x1E, CHR 0x1F])"

definition strip :: "string \<Rightarrow> string" where
  "strip s = rev (dropWhile is_space (rev (dropWhile is_space s)))"

text \<open>\<open>str.replace(a, b)\<close> for single characters.\<close>

definition replace_char :: "char \<Rightarrow> char \<Rightarrow> string \<Rightarrow> string" where
  "replace_char a b s = map (\<lambda>c. if c = a then b else c) s"

text \<open>
  \<open>s.split(sep)[-1]\<close>: the piece after the last non-overlapping occurrence of
  \<open>sep\<close>, scanning from the left; the whole string when \<open>sep\<close> does not occur.
  \<open>last_piece sep cur s\<close> scans \<open>s\<close>, with \<open>cur\<close> the current piece reversed.
  It is only used with the non-empty separators \<open>/\<close> and \<open>//\<close>.
\<close>

function last_piece :: "string \<Rightarrow> string \<Rightarrow> string \<Rightarrow> string" where
  "last_piece sep cur [] = rev cur"
| "last_piece sep cur (c # cs) =
     (if sep \<noteq> [] \<and> prefix sep (c # cs)
      then last_piece sep [] (drop (length sep) (c # cs))
      else last_piece sep (c # cur) cs)"
  by pat_completeness auto
termination
  by (relation "measure (\<lambda>(sep, cur, s). length s)") auto

definition split_last :: "string \<Rightarrow> string \<Rightarrow> string" where
  "split_last sep s = last_piece sep [] s"

text \<open>\<open>str(n)\<close> for a non-negative integer: its decimal digits.\<close>

definition digit_char :: "nat \<Rightarrow> char" where
  "digit_char d = char_of (48 + d)"

function str_of_nat :: "nat \<Rightarrow> string" where
  "str_of_nat n =
     (if n < 10 then [digit_char n] else str_of_nat (n div 10) @ [digit_char (n mod 10)])"
  by pat_completeness auto
termination
  by (relation "measure id") auto

declare str_of_nat.simps [simp del]

section \<open>Library functions: \<open>os.path\<close> and \<open>urllib.parse\<close>\<close>

text \<open>\<open>posixpath.basename\<close>, \<open>posixpath.join\<close> and \<open>posixpath.splitext\<close>.\<close>

definition basename :: "string \<Rightarrow> string" where
  "basename p = split_last ''/'' p"

definition path_join :: "string \<Rightarrow> string \<Rightarrow> string" where
  "path_join a b =
     (if prefix ''/'' b then b
      else if a = [] \<or> suffix ''/'' a then a @ b
      else a @ ''/'' @ b)"

text \<open>
  \<open>splitext\<close> cuts at the last dot that comes after the last \<open>/\<close>, unless only
  dots precede it in the file name; then the extension is empty.
\<close>

definition splitext :: "string \<Rightarrow> string \<times> string" where
  "splitext p =
     (let fname = basename p;
          dir = take (length p - length fname) p;
          ext = CHR ''.'' # split_last ''.'' fname;
          stem = take (length fname - length ext) fname
      in if CHR ''.'' \<in> set fname \<and> (\<exists>c \<in> set stem. c \<noteq> CHR ''.'')
         then (dir @ stem, ext) else (p, []))"

record parse_result =
  scheme :: string
  netloc :: string
  path :: string

text \<open>
  A model of \<open>urllib.parse.urlparse\<close> restricted to the three components the scraper
  reads.  It follows \<open>urlsplit\<close>: an initial run of scheme characters before the first
  colon is the scheme (lower-cased); after \<open>//\<close> the network location runs up to the
  first of \<open>/ ? #\<close>; a bracket without its partner raises \<open>ValueError\<close>; the path
  ends at the first \<open>#\<close> or \<open>?\<close>, and \<open>urlparse\<close> removes the parameters after
  a \<open>;\<close> in the last path segment.  Control characters, tabs and newlines (which
  newer library versions strip first) and the validation of bracketed hosts are not
  modelled; the model is used at concrete URLs only, the general results below hold
  for any parser.
\<close>

definition is_alpha :: "char \<Rightarrow> bool" where
  "is_alpha c = (let n = (of_char c :: nat) in (65 \<le> n \<and> n \<le> 90) \<or> (97 \<le> n \<and> n \<le> 122))"

definition is_scheme_char :: "char \<Rightarrow> bool" where
  "is_scheme_char c =
     (let n = (of_char c :: nat)
      in is_alpha c \<or> (48 \<le> n \<and> n \<le> 57) \<or> c \<in> set ''+-.'')"

definition split_scheme :: "string \<Rightarrow> string \<times> string" where
  "split_scheme u =
     (let pre = takeWhile (\<lambda>c. c \<noteq> CHR '':'') u
      in if CHR '':'' \<in> set u \<and> pre \<noteq> [] \<and> is_alpha (hd u) \<and> list_all is_scheme_char pre
         then (lower pre, drop (length pre + 1) u) else ([], u))"

definition uses_params :: "string list" where
  "uses_params = [[], ''ftp'', ''hdl'', ''prospero'', ''http'', ''imap'', ''https'', ''shttp'',
     ''rtsp'', ''rtspu'', ''sip'', ''sips'', ''mms'', ''sftp'', ''tel'']"

definition split_params :: "string \<Rightarrow> string" where
  "split_params p =
     (let seg = basename p; dir = take (length p - length seg) p
      in dir @ takeWhile (\<lambda>c. c \<noteq> CHR '';'') seg)"

definition py_urlparse :: "string \<Rightarrow> exn + parse_result" where
  "py_urlparse u =
     (let (sch, rest) = split_scheme u;
          (loc, rest1) =
             (if prefix ''//'' rest
              then (takeWhile (\<lambda>c. c \<notin> set ''/?#'') (drop 2 rest),
                    dropWhile (\<lambda>c. c \<notin> set ''/?#'') (drop 2 rest))
              else ([], rest));
          p = takeWhile (\<lambda>c. c \<notin> set ''?#'') rest1
      in if (CHR ''['' \<in> set loc) \<noteq> (CHR '']'' \<in> set loc)
         then Inl ''Invalid IPv6 URL''
         else Inr \<lparr>scheme = sch, netloc = loc,
                   path = (if sch \<in> set uses_params then split_params p else p)\<rparr>)"

section \<open>Data model of \<open>ScraperWorker\<close>\<close>

text \<open>
  The \<open>options\<close> dictionary.  Every key is read with \<open>options.get(key, default)\<close>,
  so a field is \<open>None\<close> when the key is absent and the getters below supply the
  default of the source.  The options \<open>timeout\<close>, \<open>user_agent\<close> and
  \<open>follow_redirects\<close> are only handed to the HTTP library and are part of the
  network oracle.
\<close>

record options =
  opt_folder_name :: "string option"
  opt_download_path :: "string option"
  opt_extract_links :: "bool option"
  opt_extract_images :: "bool option"
  opt_extract_text :: "bool option"
  opt_extract_contacts :: "bool option"
  opt_extract_meta :: "bool option"
  opt_extract_forms :: "bool option"
  opt_extract_resources :: "bool option"
  opt_crawl_pages :: "bool option"
  opt_download_images :: "bool option"
  opt_download_resources :: "bool option"
  opt_download_html :: "bool option"
  opt_max_pages :: "int option"
  opt_delay :: "int option"

definition get_or :: "'a option \<Rightarrow> 'a \<Rightarrow> 'a" where
  "get_or v d = (case v of None \<Rightarrow> d | Some x \<Rightarrow> x)"

definition max_pages :: "options \<Rightarrow> int" where
  "max_pages opts = get_or (opt_max_pages opts) 10"

text \<open>
  The parsed page: what \<open>BeautifulSoup\<close> and the helper extractors
  (\<open>extract_emails\<close>, \<open>extract_phones\<close>, \<open>extract_meta_info\<close>,
  \<open>extract_forms\<close>) return for the response text.  Attribute values are raw,
  before \<open>strip()\<close>.
\<close>

record document =
  anchors :: "string list"
  img_srcs :: "string list"
  text_blocks :: "(string \<times> string) list"
  page_emails :: "string list"
  page_phones :: "string list"
  page_meta :: "(string \<times> string) list"
  page_forms :: "string list"
  script_srcs :: "string list"
  stylesheet_hrefs :: "string list"

text \<open>
  The response object of \<open>requests\<close>: the body, the \<open>Content-Type\<close> header, the
  parsed page, and the two attributes that tell a redirect, \<open>status_code\<close> and
  \<open>history\<close> (the URLs of the redirects that were followed on the way to this
  response).  \<open>scrape_page\<close> reads neither of the last two.
\<close>

record response =
  content :: string
  content_type :: string
  soup :: document
  status_code :: nat
  history :: "url list"

text \<open>
  One call of \<open>requests.get\<close> followed by \<open>raise_for_status\<close>: a response, a
  \<open>RequestException\<close> (time-out, connection error, HTTP status 4xx or 5xx), or any
  other exception.  The call is made with the headers, the time-out and the
  \<open>allow_redirects\<close> of the options, which are fixed for the run; a redirect that
  is followed shows in the \<open>history\<close> of the response, one that is not in its
  \<open>status_code\<close>, and \<open>raise_for_status\<close> raises for neither.
\<close>

datatype attempt = Responded response | RequestException exn | OtherException exn

text \<open>
  One \<open>urlopen\<close> and copy to the opened file: an exception before the file is
  created, the whole body written, or an exception after part of it was written.
\<close>

datatype transfer = TransferFailed exn | Written string | Truncated string exn

datatype file_type = Image | Script | Stylesheet | Html

record download_record =
  dl_url :: url
  dl_local_path :: string

record manifest_entry =
  me_kind :: file_type
  me_url :: url
  me_local_path :: string
  me_timestamp :: nat

datatype fs_node = Bytes string | ManifestJson "manifest_entry list" | Directory

text \<open>The \<open>results\<close> dictionary of the worker.\<close>

record results =
  links :: "url set"
  internal_links :: "url set"
  external_links :: "url set"
  images :: "url set"
  downloaded_images :: "download_record list"
  emails :: "string set"
  phones :: "string set"
  texts :: "(url \<times> string \<times> string) list"
  forms :: "(url \<times> string) list"
  meta :: "url \<rightharpoonup> (string \<times> string) list"
  scripts :: "url set"
  downloaded_scripts :: "download_record list"
  stylesheets :: "url set"
  downloaded_stylesheets :: "download_record list"
  downloaded_html :: "download_record list"
  visited_pages :: nat
  total_data_size :: nat
  errors :: "string list"

text \<open>
  Signals emitted to the caller and the requests sent, in order.  \<open>Progress v m\<close>
  stands for the emission of \<open>min(100, int(v / m * 100))\<close>, a floating-point value.
\<close>

datatype event =
    Status string
  | Error string
  | NetworkError url string
  | Progress nat int
  | Result results
  | Finished
  | HttpGet url
  | UrlOpen url
  | Sleep int

record dirs =
  images_dir :: string
  scripts_dir :: string
  styles_dir :: string
  html_dir :: string
  manifest_path :: string

text \<open>
  The worker: the fields of \<open>ScraperWorker\<close>, the file system it writes to, the
  trace of its events, and a logical clock that advances at every read of
  \<open>self.running\<close> and at every request.
\<close>

record worker =
  res :: results
  visited_urls :: "url fset"
  queue :: "url list"
  download_dirs :: "dirs option"
  manifest :: "manifest_entry list"
  fs :: "(string, fs_node) fmap"
  events :: "event list"
  clock :: nat

text \<open>
  Everything outside the worker.  \<open>http_get t u\<close> and \<open>url_open t u\<close> answer a
  request for \<open>u\<close> made at time \<open>t\<close>; \<open>write_error t p\<close> is the exception, if any,
  of opening \<open>p\<close> for writing at time \<open>t\<close>; \<open>stop_time\<close> is the time at which the
  caller invokes \<open>stop()\<close>, which sets \<open>self.running = False\<close> for good;
  \<open>urlparse\<close> and \<open>urljoin\<close> are the functions of \<open>urllib.parse\<close>.
\<close>

record world =
  http_get :: "nat \<Rightarrow> url \<Rightarrow> attempt"
  url_open :: "nat \<Rightarrow> url \<Rightarrow> transfer"
  write_error :: "nat \<Rightarrow> string \<Rightarrow> exn option"
  stop_time :: "nat option"
  urlparse :: "string \<Rightarrow> exn + parse_result"
  urljoin :: "string \<Rightarrow> string \<Rightarrow> exn + string"

definition running_at :: "world \<Rightarrow> nat \<Rightarrow> bool" where
  "running_at w t = (case stop_time w of None \<Rightarrow> True | Some k \<Rightarrow> t < k)"

text \<open>Reading \<open>self.running\<close>.\<close>

definition read_running :: "world \<Rightarrow> worker \<Rightarrow> bool \<times> worker" where
  "read_running w s = (running_at w (clock s), s\<lparr>clock := Suc (clock s)\<rparr>)"

definition emit :: "event \<Rightarrow> worker \<Rightarrow> worker" where
  "emit e s = s\<lparr>events := events s @ [e]\<rparr>"

text \<open>Sequencing of statements that may raise: the state survives the exception.\<close>

type_synonym 'a raising = "worker \<times> (exn + 'a)"

fun for_each :: "(worker \<Rightarrow> 'a \<Rightarrow> unit raising) \<Rightarrow> worker \<Rightarrow> 'a list \<Rightarrow> unit raising" where
  "for_each f s [] = (s, Inr ())"
| "for_each f s (x # xs) =
     (case f s x of
        (s', Inl e) \<Rightarrow> (s', Inl e)
      | (s', Inr _) \<Rightarrow> for_each f s' xs)"

definition and_then :: "unit raising \<Rightarrow> (worker \<Rightarrow> unit raising) \<Rightarrow> unit raising" where
  "and_then r g = (case r of (s, Inl e) \<Rightarrow> (s, Inl e) | (s, Inr _) \<Rightarrow> g s)"

section \<open>URL predicates\<close>

definition extract_base_url :: "world \<Rightarrow> url \<Rightarrow> exn + string" where
  "extract_base_url w u =
     (case urlparse w u of
        Inl e \<Rightarrow> Inl e
      | Inr parsed \<Rightarrow> Inr (scheme parsed @ ''://'' @ netloc parsed))"

definition unwanted_exts :: "string list" where
  "unwanted_exts = [''.pdf'', ''.doc'', ''.jpg'', ''.png'', ''.gif'', ''.zip'']"

definition is_valid_url :: "url \<Rightarrow> bool" where
  "is_valid_url u =
     (if \<not> (prefix ''http://'' u \<or> prefix ''https://'' u) then False
      else if list_ex (\<lambda>ext. suffix ext (lower u)) unwanted_exts then False
      else True)"

definition normalize_url :: "world \<Rightarrow> url \<Rightarrow> string \<Rightarrow> exn + url" where
  "normalize_url w u base_url =
     (if prefix ''/'' u then urljoin w base_url u
      else if \<not> (prefix ''http://'' u \<or> prefix ''https://'' u) then urljoin w base_url u
      else Inr u)"

definition is_internal_link :: "world \<Rightarrow> url \<Rightarrow> string \<Rightarrow> exn + bool" where
  "is_internal_link w u base_domain =
     (case urlparse w u of
        Inl e \<Rightarrow> Inl e
      | Inr parsed_url \<Rightarrow>
          (let url_domain = netloc parsed_url
           in Inr (url_domain = base_domain \<or> suffix (''.'' @ base_domain) url_domain)))"

section \<open>\<open>download_file\<close>\<close>

text \<open>
  The collision loop of \<open>download_file\<close>:
  \<^verbatim>\<open>while os.path.exists(os.path.join(directory, filename)):
    name, ext = os.path.splitext(orig_filename)
    filename = f"{name}_{counter}{ext}"
    counter += 1\<close>
\<close>

definition numbered :: "string \<Rightarrow> nat \<Rightarrow> string" where
  "numbered orig_filename counter =
     (let (name, ext) = splitext orig_filename
      in name @ ''_'' @ str_of_nat counter @ ext)"

function unique_name ::
  "(string, fs_node) fmap \<Rightarrow> string \<Rightarrow> string \<Rightarrow> string \<Rightarrow> nat \<Rightarrow> string" where
  "unique_name files directory orig_filename filename counter =
     (if path_join directory filename |\<in>| fmdom files
      then unique_name files directory orig_filename (numbered orig_filename counter) (Suc counter)
      else filename)"
  by pat_completeness auto

text \<open>Decimal printing is injective, so the candidate names differ and the loop ends.\<close>

definition nat_of_str :: "string \<Rightarrow> nat" where
  "nat_of_str s = foldl (\<lambda>acc c. 10 * acc + (of_char c - 48)) 0 s"

lemma digit_val: "d < 10 \<Longrightarrow> (of_char (digit_char d) :: nat) - 48 = d"
  by (simp add: digit_char_def)

lemma nat_of_str_of_nat: "nat_of_str (str_of_nat n) = n"
proof (induction n rule: str_of_nat.induct)
  case (1 n)
  show ?case
  proof (cases "n < 10")
    case True
    then show ?thesis
      by (subst str_of_nat.simps) (simp add: nat_of_str_def digit_val)
  next
    case False
    with 1 have "nat_of_str (str_of_nat (n div 10)) = n div 10" by simp
    with False show ?thesis
      by (subst str_of_nat.simps) (simp add: nat_of_str_def digit_val)
  qed
qed

lemma str_of_nat_inj: "str_of_nat a = str_of_nat b \<Longrightarrow> a = b"
  by (metis nat_of_str_of_nat)

lemma numbered_inj: "numbered orig a = numbered orig b \<Longrightarrow> a = b"
  by (auto simp: numbered_def split: prod.splits dest: str_of_nat_inj)

lemma numbered_slash: "prefix ''/'' (numbered orig a) = prefix ''/'' (numbered orig b)"
  by (cases "fst (splitext orig)") (auto simp: numbered_def split: prod.splits)

lemma path_join_numbered_inj:
  "path_join d (numbered orig a) = path_join d (numbered orig b) \<Longrightarrow> a = b"
  using numbered_slash [of orig a b]
  by (auto simp: path_join_def dest: numbered_inj split: if_splits)

definition pending :: "(string, fs_node) fmap \<Rightarrow> string \<Rightarrow> string \<Rightarrow> nat \<Rightarrow> string set" where
  "pending files d orig c = {p \<in> fset (fmdom files). \<exists>k\<ge>c. p = path_join d (numbered orig k)}"

lemma pending_finite: "finite (pending files d orig c)"
  by (simp add: pending_def)

lemma pending_Suc:
  "pending files d orig c =
     (if path_join d (numbered orig c) |\<in>| fmdom files
      then insert (path_join d (numbered orig c)) (pending files d orig (Suc c))
      else pending files d orig (Suc c))"
proof -
  have split: "\<And>P. (\<exists>k\<ge>c. P k) = (P c \<or> (\<exists>k\<ge>Suc c. P k))"
    by (metis Suc_leD Suc_le_eq le_eq_less_or_eq order_refl)
  show ?thesis
    unfolding pending_def by (subst split) auto
qed

lemma pending_fresh: "path_join d (numbered orig c) \<notin> pending files d orig (Suc c)"
  by (auto simp: pending_def dest: path_join_numbered_inj)

termination unique_name
proof (relation "measure (\<lambda>(files, d, orig, fname, c).
         card (pending files d orig c) + (if path_join d fname |\<in>| fmdom files then 1 else 0))")
  show "wf (measure (\<lambda>(files, d, orig, fname, c).
         card (pending files d orig c) + (if path_join d fname |\<in>| fmdom files then 1 else 0)))"
    by simp
next
  fix files :: "(string, fs_node) fmap" and directory orig_filename filename :: string and counter :: nat
  assume "path_join directory filename |\<in>| fmdom files"
  then show "((files, directory, orig_filename, numbered orig_filename counter, Suc counter),
              files, directory, orig_filename, filename, counter)
         \<in> measure (\<lambda>(files, d, orig, fname, c).
         card (pending files d orig c) + (if path_join d fname |\<in>| fmdom files then 1 else 0))"
    using pending_fresh [of directory orig_filename counter files]
    by (simp add: pending_Suc [of files directory orig_filename counter] pending_finite)
qed

declare unique_name.simps [simp del]

definition synth_name :: "file_type \<Rightarrow> results \<Rightarrow> string" where
  "synth_name file_type r =
     (case file_type of
        Image \<Rightarrow> ''image_'' @ str_of_nat (length (downloaded_images r) + 1) @ ''.jpg''
      | Script \<Rightarrow> ''script_'' @ str_of_nat (length (downloaded_scripts r) + 1) @ ''.js''
      | Stylesheet \<Rightarrow> ''style_'' @ str_of_nat (length (downloaded_stylesheets r) + 1) @ ''.css''
      | Html \<Rightarrow> ''page_'' @ str_of_nat (length (downloaded_html r) + 1) @ ''.html'')"

text \<open>\<open>re.sub(r'[\\/*?:"<>|]', '_', filename)\<close>\<close>

definition sanitize :: "string \<Rightarrow> string" where
  "sanitize filename =
     map (\<lambda>c. if c \<in> set [CHR 0x5C, CHR ''/'', CHR ''*'', CHR ''?'', CHR '':'', CHR 0x22,
                            CHR ''<'', CHR ''>'', CHR ''|'']
              then CHR ''_'' else c) filename"

text \<open>
  The body of the \<open>try\<close> block.  The in-memory manifest is kept as one list whose
  entries carry their kind; \<open>self.manifest\<close> exists only when the download
  directories were created.
\<close>

definition download_body ::
  "world \<Rightarrow> worker \<Rightarrow> url \<Rightarrow> string \<Rightarrow> file_type \<Rightarrow> string raising" where
  "download_body w s u directory file_type =
     (case urlparse w u of
        Inl e \<Rightarrow> (s, Inl e)
      | Inr parsed_url \<Rightarrow>
          (let filename0 = basename (path parsed_url);
               filename1 = (if filename0 = [] \<or> CHR ''.'' \<notin> set filename0
                            then synth_name file_type (res s) else filename0);
               orig_filename = sanitize filename1;
               filename = unique_name (fs s) directory orig_filename orig_filename 1;
               filepath = path_join directory filename;
               s1 = s\<lparr>clock := Suc (clock s), events := events s @ [UrlOpen u]\<rparr>
           in case url_open w (clock s) u of
                TransferFailed e \<Rightarrow> (s1, Inl e)
              | Truncated b e \<Rightarrow> (s1\<lparr>fs := fmupd filepath (Bytes b) (fs s1)\<rparr>, Inl e)
              | Written b \<Rightarrow>
                  (let s2 = s1\<lparr>fs := fmupd filepath (Bytes b) (fs s1)\<rparr>
                   in case download_dirs s2 of
                        None \<Rightarrow> (s2, Inl ''AttributeError: manifest'')
                      | Some d \<Rightarrow>
                          (let s3 = s2\<lparr>manifest := manifest s2 @
                                     [\<lparr>me_kind = file_type, me_url = u,
                                       me_local_path = filepath, me_timestamp = clock s2\<rparr>]\<rparr>
                           in case write_error w (clock s3) (manifest_path d) of
                                Some e \<Rightarrow> (s3, Inl e)
                              | None \<Rightarrow>
                                  (s3\<lparr>fs := fmupd (manifest_path d) (ManifestJson (manifest s3)) (fs s3)\<rparr>,
                                   Inr filepath)))))"

definition download_file ::
  "world \<Rightarrow> worker \<Rightarrow> url \<Rightarrow> string \<Rightarrow> file_type \<Rightarrow> worker \<times> string option" where
  "download_file w s u directory file_type =
     (let (r, s0) = read_running w s
      in if \<not> r then (s0, None)
         else case download_body w s0 u directory file_type of
                (s1, Inl e) \<Rightarrow> (emit (Error (''Error downloading '' @ u @ '': '' @ e)) s1, None)
              | (s1, Inr filepath) \<Rightarrow> (s1, Some filepath))"

section \<open>\<open>scrape_page\<close>\<close>

text \<open>
  The retry loop.  It ends with a response (\<open>break\<close>), by returning from
  \<open>scrape_page\<close> after the last failed attempt, by an exception that is not a
  \<open>RequestException\<close>, or with its condition false and no response.
\<close>

datatype fetched = Got response | GaveUp | NoResponse | Crashed exn

definition max_retries :: nat where
  "max_retries = 3"

function retry_loop :: "world \<Rightarrow> url \<Rightarrow> worker \<Rightarrow> nat \<Rightarrow> worker \<times> fetched" where
  "retry_loop w u s retry_count =
     (if retry_count < max_retries then
        (let s1 = s\<lparr>clock := Suc (clock s), events := events s @ [HttpGet u]\<rparr>
         in case http_get w (clock s) u of
              Responded response \<Rightarrow> (s1, Got response)
            | OtherException e \<Rightarrow> (s1, Crashed e)
            | RequestException e \<Rightarrow>
                (if Suc retry_count \<ge> max_retries
                 then (emit (NetworkError u e) s1
                         \<lparr>res := (res s1)\<lparr>errors := errors (res s1) @
                                   [''Error accessing '' @ u @ '': '' @ e]\<rparr>\<rparr>, GaveUp)
                 else retry_loop w u (emit (Sleep 1) s1) (Suc retry_count)))
      else (s, NoResponse))"
  by pat_completeness auto
termination
  by (relation "measure (\<lambda>(w, u, s, retry_count). max_retries - retry_count)") auto

declare retry_loop.simps [simp del]

text \<open>Saving the page when \<open>download_html\<close> is set and \<open>self.html_dir\<close> exists.\<close>

definition save_html :: "world \<Rightarrow> options \<Rightarrow> url \<Rightarrow> response \<Rightarrow> worker \<Rightarrow> unit raising" where
  "save_html w opts u response s =
     (case download_dirs s of
        Some d \<Rightarrow>
          (if get_or (opt_download_html opts) False then
             (let page_name0 = split_last ''/'' u;
                  page_name = (if page_name0 = [] \<or> CHR ''.'' \<notin> set page_name0
                               then replace_char CHR ''/'' CHR ''_'' (split_last ''//'' u) @ ''.html''
                               else page_name0);
                  html_path = path_join (html_dir d) page_name
              in case write_error w (clock s) html_path of
                   Some e \<Rightarrow> (s, Inl e)
                 | None \<Rightarrow>
                     (s\<lparr>fs := fmupd html_path (Bytes (content response)) (fs s),
                        res := (res s)\<lparr>downloaded_html := downloaded_html (res s) @
                                 [\<lparr>dl_url = u, dl_local_path = html_path\<rparr>]\<rparr>\<rparr>, Inr ()))
           else (s, Inr ()))
      | None \<Rightarrow> (s, Inr ()))"

text \<open>The body of the loop over the anchors.\<close>

definition process_anchor ::
  "world \<Rightarrow> options \<Rightarrow> string \<Rightarrow> string \<Rightarrow> worker \<Rightarrow> string \<Rightarrow> unit raising" where
  "process_anchor w opts base_url base_domain s a =
     (let href = strip a
      in if href = [] \<or> prefix ''javascript:'' href \<or> prefix ''#'' href then (s, Inr ())
         else case normalize_url w href base_url of
                Inl e \<Rightarrow> (s, Inl e)
              | Inr full_url \<Rightarrow>
                  (if \<not> is_valid_url full_url then (s, Inr ())
                   else
                     (let s1 = s\<lparr>res := (res s)\<lparr>links := insert full_url (links (res s))\<rparr>\<rparr>
                      in case is_internal_link w full_url base_domain of
                           Inl e \<Rightarrow> (s1, Inl e)
                         | Inr True \<Rightarrow>
                             (let s2 = s1\<lparr>res := (res s1)\<lparr>internal_links :=
                                            insert full_url (internal_links (res s1))\<rparr>\<rparr>
                              in if get_or (opt_crawl_pages opts) False \<and>
                                    int (fcard (visited_urls s2)) < max_pages opts \<and>
                                    full_url |\<notin>| visited_urls s2 \<and>
                                    full_url \<notin> set (queue s2)
                                 then (s2\<lparr>queue := queue s2 @ [full_url]\<rparr>, Inr ())
                                 else (s2, Inr ()))
                         | Inr False \<Rightarrow>
                             (s1\<lparr>res := (res s1)\<lparr>external_links :=
                                   insert full_url (external_links (res s1))\<rparr>\<rparr>, Inr ()))))"

text \<open>
  The bodies of the loops over images, scripts and stylesheets.  The directory
  attributes exist only when the download directories were created.
\<close>

definition process_img :: "world \<Rightarrow> options \<Rightarrow> string \<Rightarrow> worker \<Rightarrow> string \<Rightarrow> unit raising" where
  "process_img w opts base_url s a =
     (let src = strip a
      in if src = [] then (s, Inr ())
         else case normalize_url w src base_url of
                Inl e \<Rightarrow> (s, Inl e)
              | Inr full_src \<Rightarrow>
                  (let s1 = s\<lparr>res := (res s)\<lparr>images := insert full_src (images (res s))\<rparr>\<rparr>
                   in if get_or (opt_download_images opts) False then
                        (case download_dirs s1 of
                           None \<Rightarrow> (s1, Inl ''AttributeError: images_dir'')
                         | Some d \<Rightarrow>
                             (case download_file w s1 full_src (images_dir d) Image of
                                (s2, Some local_path) \<Rightarrow>
                                  (s2\<lparr>res := (res s2)\<lparr>downloaded_images := downloaded_images (res s2) @
                                         [\<lparr>dl_url = full_src, dl_local_path = local_path\<rparr>]\<rparr>\<rparr>, Inr ())
                              | (s2, None) \<Rightarrow> (s2, Inr ())))
                      else (s1, Inr ())))"

definition process_script :: "world \<Rightarrow> options \<Rightarrow> string \<Rightarrow> worker \<Rightarrow> string \<Rightarrow> unit raising" where
  "process_script w opts base_url s a =
     (let src = strip a
      in if src = [] then (s, Inr ())
         else case normalize_url w src base_url of
                Inl e \<Rightarrow> (s, Inl e)
              | Inr full_src \<Rightarrow>
                  (let s1 = s\<lparr>res := (res s)\<lparr>scripts := insert full_src (scripts (res s))\<rparr>\<rparr>
                   in if get_or (opt_download_resources opts) False then
                        (case download_dirs s1 of
                           None \<Rightarrow> (s1, Inl ''AttributeError: scripts_dir'')
                         | Some d \<Rightarrow>
                             (case download_file w s1 full_src (scripts_dir d) Script of
                                (s2, Some local_path) \<Rightarrow>
                                  (s2\<lparr>res := (res s2)\<lparr>downloaded_scripts := downloaded_scripts (res s2) @
                                         [\<lparr>dl_url = full_src, dl_local_path = local_path\<rparr>]\<rparr>\<rparr>, Inr ())
                              | (s2, None) \<Rightarrow> (s2, Inr ())))
                      else (s1, Inr ())))"

definition process_stylesheet :: "world \<Rightarrow> options \<Rightarrow> string \<Rightarrow> worker \<Rightarrow> string \<Rightarrow> unit raising" where
  "process_stylesheet w opts base_url s a =
     (let href = strip a
      in if href = [] then (s, Inr ())
         else case normalize_url w href base_url of
                Inl e \<Rightarrow> (s, Inl e)
              | Inr full_href \<Rightarrow>
                  (let s1 = s\<lparr>res := (res s)\<lparr>stylesheets := insert full_href (stylesheets (res s))\<rparr>\<rparr>
                   in if get_or (opt_download_resources opts) False then
                        (case download_dirs s1 of
                           None \<Rightarrow> (s1, Inl ''AttributeError: styles_dir'')
                         | Some d \<Rightarrow>
                             (case download_file w s1 full_href (styles_dir d) Stylesheet of
                                (s2, Some local_path) \<Rightarrow>
                                  (s2\<lparr>res := (res s2)\<lparr>downloaded_stylesheets :=
                                         downloaded_stylesheets (res s2) @
                                         [\<lparr>dl_url = full_href, dl_local_path = local_path\<rparr>]\<rparr>\<rparr>, Inr ())
                              | (s2, None) \<Rightarrow> (s2, Inr ())))
                      else (s1, Inr ())))"

text \<open>The extraction steps, each guarded by its option.\<close>

definition extract_links_step ::
  "world \<Rightarrow> options \<Rightarrow> string \<Rightarrow> string \<Rightarrow> document \<Rightarrow> worker \<Rightarrow> unit raising" where
  "extract_links_step w opts base_url base_domain doc s =
     (if get_or (opt_extract_links opts) True
      then for_each (process_anchor w opts base_url base_domain) s (anchors doc)
      else (s, Inr ()))"

definition extract_images_step ::
  "world \<Rightarrow> options \<Rightarrow> string \<Rightarrow> document \<Rightarrow> worker \<Rightarrow> unit raising" where
  "extract_images_step w opts base_url doc s =
     (if get_or (opt_extract_images opts) True
      then for_each (process_img w opts base_url) s (img_srcs doc)
      else (s, Inr ()))"

definition extract_text_step :: "options \<Rightarrow> url \<Rightarrow> document \<Rightarrow> worker \<Rightarrow> unit raising" where
  "extract_text_step opts u doc s =
     (if get_or (opt_extract_text opts) True
      then (s\<lparr>res := (res s)\<lparr>texts := texts (res s) @
                 map (\<lambda>(tag, text). (u, tag, text))
                     (filter (\<lambda>(tag, text). text \<noteq> []) (text_blocks doc))\<rparr>\<rparr>, Inr ())
      else (s, Inr ()))"

definition extract_contacts_step :: "options \<Rightarrow> document \<Rightarrow> worker \<Rightarrow> unit raising" where
  "extract_contacts_step opts doc s =
     (if get_or (opt_extract_contacts opts) True
      then (s\<lparr>res := (res s)\<lparr>emails := emails (res s) \<union> set (page_emails doc),
                             phones := phones (res s) \<union> set (page_phones doc)\<rparr>\<rparr>, Inr ())
      else (s, Inr ()))"

definition extract_meta_step :: "options \<Rightarrow> url \<Rightarrow> document \<Rightarrow> worker \<Rightarrow> unit raising" where
  "extract_meta_step opts u doc s =
     (if get_or (opt_extract_meta opts) True
      then (if meta (res s) u = None
            then (s\<lparr>res := (res s)\<lparr>meta := (meta (res s))(u \<mapsto> page_meta doc)\<rparr>\<rparr>, Inr ())
            else (s, Inr ()))
      else (s, Inr ()))"

definition extract_forms_step :: "options \<Rightarrow> url \<Rightarrow> document \<Rightarrow> worker \<Rightarrow> unit raising" where
  "extract_forms_step opts u doc s =
     (if get_or (opt_extract_forms opts) True
      then (s\<lparr>res := (res s)\<lparr>forms := forms (res s) @ map (\<lambda>form. (u, form)) (page_forms doc)\<rparr>\<rparr>,
            Inr ())
      else (s, Inr ()))"

definition extract_resources_step ::
  "world \<Rightarrow> options \<Rightarrow> string \<Rightarrow> document \<Rightarrow> worker \<Rightarrow> unit raising" where
  "extract_resources_step w opts base_url doc s =
     (if get_or (opt_extract_resources opts) True
      then and_then (for_each (process_script w opts base_url) s (script_srcs doc))
             (\<lambda>s1. for_each (process_stylesheet w opts base_url) s1 (stylesheet_hrefs doc))
      else (s, Inr ()))"

text \<open>
  The end of the page: the counter, the progress signal and the pause.
  \<open>time.sleep\<close> raises \<open>ValueError\<close> on a negative length.
\<close>

definition finish_page :: "options \<Rightarrow> worker \<Rightarrow> unit raising" where
  "finish_page opts s =
     (let s1 = s\<lparr>res := (res s)\<lparr>visited_pages := visited_pages (res s) + 1\<rparr>\<rparr>;
          s2 = (if max_pages opts > 0
                then emit (Progress (visited_pages (res s1)) (max_pages opts)) s1 else s1)
      in if get_or (opt_delay opts) 1 < 0
         then (s2, Inl ''sleep length must be non-negative'')
         else (emit (Sleep (get_or (opt_delay opts) 1)) s2, Inr ()))"

text \<open>Everything after the content-type check.\<close>

definition extract_page :: "world \<Rightarrow> options \<Rightarrow> url \<Rightarrow> response \<Rightarrow> worker \<Rightarrow> unit raising" where
  "extract_page w opts u response s =
     (case extract_base_url w u of
        Inl e \<Rightarrow> (s, Inl e)
      | Inr base_url \<Rightarrow>
          (case urlparse w base_url of
             Inl e \<Rightarrow> (s, Inl e)
           | Inr parsed_base \<Rightarrow>
               (let base_domain = netloc parsed_base; doc = soup response
                in and_then (extract_links_step w opts base_url base_domain doc s)
                  (\<lambda>s. and_then (extract_images_step w opts base_url doc s)
                  (\<lambda>s. and_then (extract_text_step opts u doc s)
                  (\<lambda>s. and_then (extract_contacts_step opts doc s)
                  (\<lambda>s. and_then (extract_meta_step opts u doc s)
                  (\<lambda>s. and_then (extract_forms_step opts u doc s)
                  (\<lambda>s. and_then (extract_resources_step w opts base_url doc s)
                  (finish_page opts))))))))))"

text \<open>The \<open>try\<close> block of \<open>scrape_page\<close>.\<close>

definition scrape_body :: "world \<Rightarrow> options \<Rightarrow> url \<Rightarrow> worker \<Rightarrow> unit raising" where
  "scrape_body w opts u s =
     (case retry_loop w u s 0 of
        (s1, GaveUp) \<Rightarrow> (s1, Inr ())
      | (s1, Crashed e) \<Rightarrow> (s1, Inl e)
      | (s1, NoResponse) \<Rightarrow> (s1, Inr ())
      | (s1, Got response) \<Rightarrow>
          (let s2 = s1\<lparr>res := (res s1)\<lparr>total_data_size :=
                          total_data_size (res s1) + length (content response)\<rparr>\<rparr>
           in and_then (save_html w opts u response s2)
                (\<lambda>s3. if \<not> prefix ''text/html'' (content_type response) then (s3, Inr ())
                      else extract_page w opts u response s3)))"

text \<open>
  \<open>scrape_page\<close>.  Its handler \<open>except Exception\<close> emits the error signal and
  nothing else, so the call itself never raises.
\<close>

definition mark_visited :: "url \<Rightarrow> worker \<Rightarrow> worker" where
  "mark_visited u s =
     emit (Status (''Scraping: '' @ u)) (s\<lparr>visited_urls := finsert u (visited_urls s)\<rparr>)"

definition scrape_page :: "world \<Rightarrow> options \<Rightarrow> worker \<Rightarrow> url \<Rightarrow> worker" where
  "scrape_page w opts s u =
     (if u |\<in>| visited_urls s then s
      else
        (let (r, s0) = read_running w s
         in if \<not> r then s0
            else
              (let s1 = mark_visited u s0
               in case scrape_body w opts u s1 of
                    (s2, Inl e) \<Rightarrow> emit (Error (''Error scraping '' @ u @ '': '' @ e)) s2
                  | (s2, Inr _) \<Rightarrow> s2)))"

section \<open>\<open>run\<close>\<close>

text \<open>
  The loop of \<open>run\<close>.  Its condition reads the queue, then \<open>self.running\<close>, then
  the size of the visited set, in this order and only as far as needed.  The
  handler around the body is never entered, since neither \<open>pop(0)\<close> on a non-empty
  queue nor \<open>scrape_page\<close> raises.
\<close>

function crawl_loop :: "world \<Rightarrow> options \<Rightarrow> worker \<Rightarrow> worker" where
  "crawl_loop w opts s =
     (case queue s of
        [] \<Rightarrow> s
      | next_url # rest \<Rightarrow>
          (if running_at w (clock s) \<and>
              int (fcard (visited_urls s)) < max_pages opts
           then crawl_loop w opts
                  (scrape_page w opts (s\<lparr>clock := Suc (clock s), queue := rest\<rparr>) next_url)
           else s\<lparr>clock := Suc (clock s)\<rparr>))"
  by pat_completeness auto

text \<open>
  What no statement between the fetch and the end of the page changes: the visited set,
  the error list, the byte counter, the page requests sent, the download directories;
  the clock never runs backwards, and a queue that is duplicate-free and disjoint from
  the visited set stays so.
\<close>

fun is_http_get :: "event \<Rightarrow> bool" where
  "is_http_get (HttpGet u) = True"
| "is_http_get _ = False"

definition queue_ok :: "worker \<Rightarrow> bool" where
  "queue_ok s \<longleftrightarrow> distinct (queue s) \<and> list_all (\<lambda>u. u |\<notin>| visited_urls s) (queue s)"

fun is_url_open :: "event \<Rightarrow> bool" where
  "is_url_open (UrlOpen u) = True"
| "is_url_open _ = False"

definition keeps :: "worker \<Rightarrow> worker \<Rightarrow> bool" where
  "keeps s s' \<longleftrightarrow>
     visited_urls s' = visited_urls s \<and>
     errors (res s') = errors (res s) \<and>
     total_data_size (res s') = total_data_size (res s) \<and>
     filter is_http_get (events s') = filter is_http_get (events s) \<and>
     download_dirs s' = download_dirs s \<and>
     clock s \<le> clock s' \<and>
     (queue_ok s \<longrightarrow> queue_ok s')"

definition frame :: "world \<Rightarrow> worker \<Rightarrow> worker \<Rightarrow> bool" where
  "frame w s s' \<longleftrightarrow>
     keeps s s' \<and>
     (\<not> running_at w (clock s) \<longrightarrow>
        filter is_url_open (events s') = filter is_url_open (events s))"

lemma frame_refl: "frame w s s"
  by (simp add: frame_def keeps_def)

lemma running_at_mono: "t \<le> t' \<Longrightarrow> running_at w t' \<Longrightarrow> running_at w t"
  by (auto simp: running_at_def split: option.splits)

lemma frame_trans: "frame w s s' \<Longrightarrow> frame w s' s'' \<Longrightarrow> frame w s s''"
  unfolding frame_def keeps_def using running_at_mono [of "clock s" "clock s'" w] by auto

lemma for_each_frame:
  assumes "\<And>s x s' r. f s x = (s', r) \<Longrightarrow> frame w s s'"
  shows "for_each f s xs = (s', r) \<Longrightarrow> frame w s s'"
proof (induction xs arbitrary: s)
  case Nil
  then show ?case by (simp add: frame_refl)
next
  case (Cons x xs)
  obtain s1 r1 where fx: "f s x = (s1, r1)" by (cases "f s x")
  have step: "frame w s s1" using assms fx by blast
  show ?case
  proof (cases r1)
    case (Inl e)
    with fx Cons.prems step show ?thesis by simp
  next
    case (Inr v)
    with fx Cons.prems have "for_each f s1 xs = (s', r)" by simp
    with step Cons.IH show ?thesis by (blast intro: frame_trans)
  qed
qed

lemma and_then_frame:
  assumes "and_then x g = (s', v)" and "frame w s (fst x)"
    and "\<And>s1 s2 v2. g s1 = (s2, v2) \<Longrightarrow> frame w s1 s2"
  shows "frame w s s'"
proof (cases x)
  case (Pair s1 v1)
  show ?thesis
  proof (cases v1)
    case (Inl e)
    with Pair assms(1,2) show ?thesis by (simp add: and_then_def)
  next
    case (Inr u)
    with Pair assms(1) have "g s1 = (s', v)" by (simp add: and_then_def)
    with Pair assms(2,3) show ?thesis by (auto intro: frame_trans)
  qed
qed

lemma download_body_keeps: "download_body w s u d ft = (s', r) \<Longrightarrow> keeps s s'"
  by (auto simp: download_body_def keeps_def queue_ok_def Let_def split: sum.splits transfer.splits option.splits)


lemma download_file_frame: "download_file w s u d ft = (s', r) \<Longrightarrow> frame w s s'"
  by (auto simp: download_file_def read_running_def emit_def frame_def keeps_def queue_ok_def
           split: sum.splits prod.splits if_splits dest!: download_body_keeps)

lemma process_anchor_frame: "process_anchor w opts b d s a = (s', r) \<Longrightarrow> frame w s s'"
  by (auto simp: process_anchor_def frame_def keeps_def queue_ok_def Let_def list_all_iff split: sum.splits bool.splits if_splits)

lemma process_img_frame: "process_img w opts b s a = (s', r) \<Longrightarrow> frame w s s'"
  by (auto simp: process_img_def frame_def keeps_def queue_ok_def Let_def
           split: sum.splits option.splits prod.splits if_splits dest!: download_file_frame)

lemma process_script_frame: "process_script w opts b s a = (s', r) \<Longrightarrow> frame w s s'"
  by (auto simp: process_script_def frame_def keeps_def queue_ok_def Let_def
           split: sum.splits option.splits prod.splits if_splits dest!: download_file_frame)

lemma process_stylesheet_frame: "process_stylesheet w opts b s a = (s', r) \<Longrightarrow> frame w s s'"
  by (auto simp: process_stylesheet_def frame_def keeps_def queue_ok_def Let_def
           split: sum.splits option.splits prod.splits if_splits dest!: download_file_frame)


lemma extract_links_step_frame:
  "extract_links_step w opts b d doc s = (s', r) \<Longrightarrow> frame w s s'"
  by (auto simp: extract_links_step_def frame_refl split: if_splits
           elim: for_each_frame [rotated] process_anchor_frame)

lemma extract_images_step_frame:
  "extract_images_step w opts b doc s = (s', r) \<Longrightarrow> frame w s s'"
  by (auto simp: extract_images_step_def frame_refl split: if_splits
           elim: for_each_frame [rotated] process_img_frame)

lemma extract_text_step_frame: "extract_text_step opts u doc s = (s', r) \<Longrightarrow> frame w s s'"
  by (auto simp: extract_text_step_def frame_def keeps_def queue_ok_def split: if_splits)

lemma extract_contacts_step_frame: "extract_contacts_step opts doc s = (s', r) \<Longrightarrow> frame w s s'"
  by (auto simp: extract_contacts_step_def frame_def keeps_def queue_ok_def split: if_splits)

lemma extract_meta_step_frame: "extract_meta_step opts u doc s = (s', r) \<Longrightarrow> frame w s s'"
  by (auto simp: extract_meta_step_def frame_def keeps_def queue_ok_def split: if_splits)

lemma extract_forms_step_frame: "extract_forms_step opts u doc s = (s', r) \<Longrightarrow> frame w s s'"
  by (auto simp: extract_forms_step_def frame_def keeps_def queue_ok_def split: if_splits)

lemma extract_resources_step_frame:
  assumes "extract_resources_step w opts b doc s = (s', r)"
  shows "frame w s s'"
proof (cases "get_or (opt_extract_resources opts) True")
  case False
  with assms show ?thesis by (simp add: extract_resources_step_def frame_refl)
next
  case True
  obtain s1 r1 where first: "for_each (process_script w opts b) s (script_srcs doc) = (s1, r1)"
    by (cases "for_each (process_script w opts b) s (script_srcs doc)")
  have f1: "frame w s s1"
    using first by (rule for_each_frame [rotated]) (rule process_script_frame)
  from True assms first
  have "and_then (s1, r1) (\<lambda>s1. for_each (process_stylesheet w opts b) s1 (stylesheet_hrefs doc)) = (s', r)"
    by (simp add: extract_resources_step_def)
  then show ?thesis
  proof (rule and_then_frame)
    show "frame w s (fst (s1, r1))" using f1 by simp
  next
    fix t t' v
    assume "for_each (process_stylesheet w opts b) t (stylesheet_hrefs doc) = (t', v)"
    then show "frame w t t'"
      by (rule for_each_frame [rotated]) (rule process_stylesheet_frame)
  qed
qed

lemma save_html_frame: "save_html w opts u response s = (s', r) \<Longrightarrow> frame w s s'"
  by (auto simp: save_html_def frame_def keeps_def queue_ok_def Let_def split: option.splits if_splits)


lemma finish_page_frame: "finish_page opts s = (s', r) \<Longrightarrow> frame w s s'"
  by (auto simp: finish_page_def frame_def keeps_def queue_ok_def emit_def Let_def split: if_splits)

lemma and_then_frame':
  assumes "and_then x g = (s', v)"
    and "\<And>s1 v1. x = (s1, v1) \<Longrightarrow> frame w s s1"
    and "\<And>s1 s2 v2. g s1 = (s2, v2) \<Longrightarrow> frame w s1 s2"
  shows "frame w s s'"
  using assms(1) by (rule and_then_frame) (cases x, auto intro: assms(2,3))

lemma extract_page_frame:
  assumes "extract_page w opts u response s = (s', r)"
  shows "frame w s s'"
proof (cases "extract_base_url w u")
  case (Inl e)
  with assms show ?thesis by (simp add: extract_page_def frame_refl)
next
  case base: (Inr base_url)
  show ?thesis
  proof (cases "urlparse w base_url")
    case (Inl e)
    with base assms show ?thesis by (simp add: extract_page_def frame_refl)
  next
    case (Inr parsed_base)
    note steps = extract_links_step_frame extract_images_step_frame extract_text_step_frame
      extract_contacts_step_frame extract_meta_step_frame extract_forms_step_frame
      extract_resources_step_frame finish_page_frame
    from assms base Inr show ?thesis
      apply (simp add: extract_page_def Let_def)
      apply (elim and_then_frame')
      apply (erule steps)+
      done
  qed
qed

lemma after_fetch_frame:
  assumes "and_then (save_html w opts u response s)
             (\<lambda>s3. if \<not> prefix ''text/html'' (content_type response) then (s3, Inr ())
                   else extract_page w opts u response s3) = (s', r)"
  shows "frame w s s'"
  using assms
  apply (elim and_then_frame')
   apply (erule save_html_frame)
  apply (auto simp: frame_refl split: if_splits elim: extract_page_frame)
  done


lemma retry_loop_keeps:
  "retry_loop w u s n = (s', r) \<Longrightarrow>
     visited_urls s' = visited_urls s \<and> queue s' = queue s \<and>
     download_dirs s' = download_dirs s \<and> fs s' = fs s \<and> manifest s' = manifest s \<and>
     clock s \<le> clock s' \<and>
     res s' = (res s)\<lparr>errors := errors (res s')\<rparr>"
proof (induction w u s n rule: retry_loop.induct)
  case (1 w u s retry_count)
  show ?case
  proof (cases "retry_count < max_retries")
    case False
    with "1.prems" show ?thesis by (auto simp: retry_loop.simps [of w u s retry_count])
  next
    case True
    let ?s1 = "s\<lparr>clock := Suc (clock s), events := events s @ [HttpGet u]\<rparr>"
    show ?thesis
    proof (cases "http_get w (clock s) u")
      case (Responded response)
      with True "1.prems" show ?thesis by (auto simp: retry_loop.simps [of w u s retry_count])
    next
      case (OtherException e)
      with True "1.prems" show ?thesis by (auto simp: retry_loop.simps [of w u s retry_count])
    next
      case (RequestException e)
      show ?thesis
      proof (cases "Suc retry_count \<ge> max_retries")
        case True
        with \<open>retry_count < max_retries\<close> RequestException "1.prems" show ?thesis
          by (auto simp: retry_loop.simps [of w u s retry_count] emit_def)
      next
        case False
        with \<open>retry_count < max_retries\<close> RequestException "1.prems"
        have rec: "retry_loop w u (emit (Sleep 1) ?s1) (Suc retry_count) = (s', r)"
          by (simp add: retry_loop.simps [of w u s retry_count])
        from "1.IH" [OF \<open>retry_count < max_retries\<close> refl RequestException False rec]
        show ?thesis by (simp add: emit_def)
      qed
    qed
  qed
qed

lemma scrape_body_keeps:
  assumes "scrape_body w opts u s = (s', r)"
  shows "visited_urls s' = visited_urls s \<and> download_dirs s' = download_dirs s \<and>
         clock s \<le> clock s' \<and> (queue_ok s \<longrightarrow> queue_ok s')"
proof -
  obtain s1 f where fetch: "retry_loop w u s 0 = (s1, f)" by (cases "retry_loop w u s 0")
  note k = retry_loop_keeps [OF fetch]
  show ?thesis
  proof (cases f)
    case (Got response)
    let ?s2 = "s1\<lparr>res := (res s1)\<lparr>total_data_size :=
                 total_data_size (res s1) + length (content response)\<rparr>\<rparr>"
    from assms fetch Got have "frame w ?s2 s'"
      by (auto simp: scrape_body_def Let_def elim: after_fetch_frame)
    with k show ?thesis by (auto simp: frame_def keeps_def queue_ok_def)
  next
    case GaveUp
    with assms fetch k show ?thesis by (auto simp: scrape_body_def queue_ok_def)
  next
    case NoResponse
    with assms fetch k show ?thesis by (auto simp: scrape_body_def queue_ok_def)
  next
    case (Crashed e)
    with assms fetch k show ?thesis by (auto simp: scrape_body_def queue_ok_def)
  qed
qed

definition proceeds :: "world \<Rightarrow> worker \<Rightarrow> url \<Rightarrow> bool" where
  "proceeds w s u \<longleftrightarrow> u |\<notin>| visited_urls s \<and> running_at w (clock s)"

lemma scrape_page_skip: "\<not> proceeds w s u \<Longrightarrow>
  scrape_page w opts s u = (if u |\<in>| visited_urls s then s else s\<lparr>clock := Suc (clock s)\<rparr>)"
  by (auto simp: scrape_page_def proceeds_def read_running_def)

lemma scrape_page_visited:
  "visited_urls (scrape_page w opts s u) =
     (if proceeds w s u then finsert u (visited_urls s) else visited_urls s)"
proof (cases "proceeds w s u")
  case False
  then show ?thesis by (simp add: scrape_page_skip)
next
  case True
  let ?s1 = "mark_visited u (s\<lparr>clock := Suc (clock s)\<rparr>)"
  obtain s2 r where body: "scrape_body w opts u ?s1 = (s2, r)"
    by (cases "scrape_body w opts u ?s1")
  from scrape_body_keeps [OF body] have "visited_urls s2 = finsert u (visited_urls s)"
    by (simp add: emit_def mark_visited_def)
  with True body show ?thesis
    by (auto simp: scrape_page_def proceeds_def read_running_def emit_def split: sum.splits)
qed

termination crawl_loop
proof (relation "measures [\<lambda>(w, opts, s). nat (max_pages opts - int (fcard (visited_urls s))),
                           \<lambda>(w, opts, s). length (queue s)]", goal_cases)
  case 1
  show ?case by simp
next
  case (2 w opts s next_url rest)
  let ?s0 = "s\<lparr>clock := Suc (clock s), queue := rest\<rparr>"
  show ?case
  proof (cases "proceeds w ?s0 next_url")
    case True
    then have "next_url |\<notin>| visited_urls s" by (simp add: proceeds_def)
    with True 2 show ?thesis
      by (simp add: scrape_page_visited fcard_finsert_disjoint)
  next
    case False
    with 2 show ?thesis
      by (auto simp: scrape_page_skip)
  qed
qed

declare crawl_loop.simps [simp del]

text \<open>
  \<open>run\<close>: the seed is appended to the queue, the loop runs, and the outcome is
  signalled.  When the worker was stopped, \<open>finished\<close> is emitted by the early
  return and once more by the \<open>finally\<close> clause.
\<close>

definition run :: "world \<Rightarrow> options \<Rightarrow> url \<Rightarrow> worker \<Rightarrow> worker" where
  "run w opts seed s =
     (let s1 = crawl_loop w opts (s\<lparr>queue := queue s @ [seed]\<rparr>);
          (r, s2) = read_running w s1
      in if \<not> r
         then emit Finished (emit Finished (emit (Status ''Scraping stopped by user'') s2))
         else emit Finished (emit (Status ''Scraping completed'') (emit (Result (res s2)) s2)))"

section \<open>\<open>__init__\<close>\<close>

definition empty_results :: results where
  "empty_results =
     \<lparr>links = {}, internal_links = {}, external_links = {}, images = {},
      downloaded_images = [], emails = {}, phones = {}, texts = [], forms = [],
      meta = Map.empty, scripts = {}, downloaded_scripts = [], stylesheets = {},
      downloaded_stylesheets = [], downloaded_html = [], visited_pages = 0,
      total_data_size = 0, errors = []\<rparr>"

text \<open>\<open>os.makedirs(p, exist_ok=True)\<close> on a file system that holds the parent.\<close>

definition makedirs :: "string \<Rightarrow> (string, fs_node) fmap \<Rightarrow> exn + (string, fs_node) fmap" where
  "makedirs p files =
     (case fmlookup files p of
        None \<Rightarrow> Inr (fmupd p Directory files)
      | Some Directory \<Rightarrow> Inr files
      | Some _ \<Rightarrow> Inl ''FileExistsError'')"

text \<open>
  \<open>create_download_directories\<close>; \<open>stamp\<close> is the formatted time of the call.
\<close>

definition create_download_directories ::
  "world \<Rightarrow> options \<Rightarrow> url \<Rightarrow> string \<Rightarrow> worker \<Rightarrow> exn + worker" where
  "create_download_directories w opts seed stamp s =
     (case (if get_or (opt_folder_name opts) [] = []
            then (case urlparse w seed of
                    Inl e \<Rightarrow> Inl e
                  | Inr parsed \<Rightarrow> Inr (replace_char CHR '':'' CHR ''_'' (netloc parsed) @ ''_'' @ stamp))
            else Inr (get_or (opt_folder_name opts) [])) of
        Inl e \<Rightarrow> Inl e
      | Inr folder_name \<Rightarrow>
          (let download_dir = path_join (get_or (opt_download_path opts) ''downloads'') folder_name;
               d = \<lparr>images_dir = path_join download_dir ''images'',
                    scripts_dir = path_join download_dir ''scripts'',
                    styles_dir = path_join download_dir ''styles'',
                    html_dir = path_join download_dir ''html'',
                    manifest_path = path_join download_dir ''manifest.json''\<rparr>
           in case makedirs download_dir (fs s) of Inl e \<Rightarrow> Inl e | Inr f0 \<Rightarrow>
              (case makedirs (images_dir d) f0 of Inl e \<Rightarrow> Inl e | Inr f1 \<Rightarrow>
              (case makedirs (scripts_dir d) f1 of Inl e \<Rightarrow> Inl e | Inr f2 \<Rightarrow>
              (case makedirs (styles_dir d) f2 of Inl e \<Rightarrow> Inl e | Inr f3 \<Rightarrow>
              (case makedirs (html_dir d) f3 of Inl e \<Rightarrow> Inl e | Inr f4 \<Rightarrow>
                 Inr (emit (Status (''Created download directory: '' @ download_dir))
                        (s\<lparr>fs := f4, download_dirs := Some d, manifest := []\<rparr>))))))))"

definition init_worker ::
  "world \<Rightarrow> options \<Rightarrow> url \<Rightarrow> string \<Rightarrow> (string, fs_node) fmap \<Rightarrow> exn + worker" where
  "init_worker w opts seed stamp files =
     (let s = \<lparr>res = empty_results, visited_urls = {||}, queue = [], download_dirs = None,
               manifest = [], fs = files, events = [], clock = 0\<rparr>
      in if get_or (opt_download_images opts) False \<or>
            get_or (opt_download_resources opts) False \<or>
            get_or (opt_download_html opts) False
         then create_download_directories w opts seed stamp s
         else Inr s)"

section \<open>The states of a run\<close>

text \<open>
  \<open>reach w opts s0 s\<close>: \<open>s\<close> is the state at some head of the crawl loop started
  in \<open>s0\<close>.  One step is one iteration: the guard holds, the first URL leaves the
  queue and \<open>scrape_page\<close> runs on it.
\<close>

inductive reach :: "world \<Rightarrow> options \<Rightarrow> worker \<Rightarrow> worker \<Rightarrow> bool" for w opts s0 where
  reach_start: "reach w opts s0 s0"
| reach_step: "reach w opts s0 s \<Longrightarrow> queue s = next_url # rest \<Longrightarrow>
     running_at w (clock s) \<Longrightarrow> int (fcard (visited_urls s)) < max_pages opts \<Longrightarrow>
     reach w opts s0 (scrape_page w opts (s\<lparr>clock := Suc (clock s), queue := rest\<rparr>) next_url)"

lemma reach_trans: "reach w opts s1 s2 \<Longrightarrow> reach w opts s0 s1 \<Longrightarrow> reach w opts s0 s2"
  by (induction rule: reach.induct) (auto intro: reach.intros)

lemma crawl_loop_empty: "queue s = [] \<Longrightarrow> crawl_loop w opts s = s"
  by (subst crawl_loop.simps) simp

lemma crawl_loop_exit:
  "queue s = next_url # rest \<Longrightarrow>
   \<not> (running_at w (clock s) \<and> int (fcard (visited_urls s)) < max_pages opts) \<Longrightarrow>
   crawl_loop w opts s = s\<lparr>clock := Suc (clock s)\<rparr>"
  by (subst crawl_loop.simps) auto

lemma crawl_loop_step:
  "queue s = next_url # rest \<Longrightarrow> running_at w (clock s) \<Longrightarrow>
   int (fcard (visited_urls s)) < max_pages opts \<Longrightarrow>
   crawl_loop w opts s =
     crawl_loop w opts (scrape_page w opts (s\<lparr>clock := Suc (clock s), queue := rest\<rparr>) next_url)"
  by (subst crawl_loop.simps) simp

lemma crawl_loop_reach:
  "\<exists>t. reach w opts s t \<and> visited_urls (crawl_loop w opts s) = visited_urls t \<and>
       queue (crawl_loop w opts s) = queue t \<and> res (crawl_loop w opts s) = res t \<and>
       events (crawl_loop w opts s) = events t \<and> fs (crawl_loop w opts s) = fs t"
proof (induction w opts s rule: crawl_loop.induct)
  case (1 w opts s)
  show ?case
  proof (cases "queue s")
    case Nil
    then have "crawl_loop w opts s = s" by (rule crawl_loop_empty)
    then show ?thesis by (auto intro: reach_start)
  next
    case (Cons next_url rest)
    show ?thesis
    proof (cases "running_at w (clock s) \<and> int (fcard (visited_urls s)) < max_pages opts")
      case False
      with Cons have "crawl_loop w opts s = s\<lparr>clock := Suc (clock s)\<rparr>"
        by (rule crawl_loop_exit)
      then show ?thesis by (auto intro: reach_start)
    next
      case True
      let ?s' = "scrape_page w opts (s\<lparr>clock := Suc (clock s), queue := rest\<rparr>) next_url"
      from True Cons have eq: "crawl_loop w opts s = crawl_loop w opts ?s'"
        by (simp add: crawl_loop_step)
      from True Cons have r1: "reach w opts s ?s'"
        by (auto intro: reach_step reach_start)
      from "1.IH" [OF Cons] True obtain t where
        t: "reach w opts ?s' t" "visited_urls (crawl_loop w opts ?s') = visited_urls t"
           "queue (crawl_loop w opts ?s') = queue t" "res (crawl_loop w opts ?s') = res t"
           "events (crawl_loop w opts ?s') = events t" "fs (crawl_loop w opts ?s') = fs t"
        by blast
      from reach_trans [OF t(1) r1] t eq show ?thesis by auto
    qed
  qed
qed

lemma scrape_page_visited_le:
  "fcard (visited_urls (scrape_page w opts s u)) \<le> Suc (fcard (visited_urls s))"
  by (simp add: scrape_page_visited proceeds_def fcard_finsert_disjoint)

lemma reach_visited_bounded:
  "reach w opts s0 s \<Longrightarrow> int (fcard (visited_urls s0)) \<le> max_pages opts \<Longrightarrow>
   int (fcard (visited_urls s)) \<le> max_pages opts"
proof (induction rule: reach.induct)
  case reach_start
  then show ?case by simp
next
  case (reach_step s next_url rest)
  have "fcard (visited_urls (scrape_page w opts (s\<lparr>clock := Suc (clock s), queue := rest\<rparr>) next_url))
          \<le> Suc (fcard (visited_urls s))"
    using scrape_page_visited_le [of w opts "s\<lparr>clock := Suc (clock s), queue := rest\<rparr>" next_url]
    by simp
  with reach_step.hyps(4) show ?case by linarith
qed

lemma scrape_page_queue_ok:
  assumes "queue_ok s" "u \<notin> set (queue s)"
  shows "queue_ok (scrape_page w opts s u)"
proof (cases "proceeds w s u")
  case False
  with assms show ?thesis by (auto simp: scrape_page_skip queue_ok_def)
next
  case True
  let ?s1 = "mark_visited u (s\<lparr>clock := Suc (clock s)\<rparr>)"
  obtain s2 r where body: "scrape_body w opts u ?s1 = (s2, r)"
    by (cases "scrape_body w opts u ?s1")
  from assms have "queue_ok ?s1"
    by (auto simp: queue_ok_def emit_def mark_visited_def list_all_iff)
  with scrape_body_keeps [OF body] have "queue_ok s2" by simp
  with True body show ?thesis
    by (auto simp: scrape_page_def proceeds_def read_running_def emit_def queue_ok_def split: sum.splits)
qed

lemma reach_queue_ok:
  "reach w opts s0 s \<Longrightarrow> queue_ok s0 \<Longrightarrow> queue_ok s"
proof (induction rule: reach.induct)
  case reach_start
  then show ?case by simp
next
  case (reach_step s next_url rest)
  then have "queue_ok s" by simp
  with reach_step.hyps(2) have "queue_ok (s\<lparr>clock := Suc (clock s), queue := rest\<rparr>)"
    and "next_url \<notin> set (queue (s\<lparr>clock := Suc (clock s), queue := rest\<rparr>))"
    by (auto simp: queue_ok_def)
  then show ?case by (rule scrape_page_queue_ok)
qed


lemma init_worker_frontier:
  "init_worker w opts seed stamp files = Inr s0 \<Longrightarrow> visited_urls s0 = {||} \<and> queue s0 = []"
  by (auto simp: init_worker_def create_download_directories_def emit_def Let_def
           split: if_splits sum.splits)

section \<open>A concrete crawl\<close>

text \<open>
  A site of two pages: the seed \<open>https://example.com\<close> links to
  \<open>https://blog.example.com/b\<close>, which links back to \<open>https://example.com/a\<close>;
  every other request times out.  All links are absolute, so \<open>urljoin\<close> is never
  called on this site.
\<close>

definition demo_opts :: options where
  "demo_opts = \<lparr>opt_folder_name = None, opt_download_path = None,
     opt_extract_links = Some True, opt_extract_images = Some True, opt_extract_text = Some True,
     opt_extract_contacts = Some True, opt_extract_meta = Some True, opt_extract_forms = Some True,
     opt_extract_resources = Some True, opt_crawl_pages = Some True,
     opt_download_images = Some False, opt_download_resources = Some False,
     opt_download_html = Some False, opt_max_pages = Some 10, opt_delay = Some 1\<rparr>"

definition empty_doc :: document where
  "empty_doc = \<lparr>anchors = [], img_srcs = [], text_blocks = [], page_emails = [], page_phones = [],
     page_meta = [], page_forms = [], script_srcs = [], stylesheet_hrefs = []\<rparr>"

definition html_page :: "string list \<Rightarrow> response" where
  "html_page hrefs = \<lparr>content = ''<html>'', content_type = ''text/html; charset=utf-8'',
     soup = empty_doc\<lparr>anchors := hrefs\<rparr>, status_code = 200, history = []\<rparr>"

definition demo_world :: world where
  "demo_world = \<lparr>
     http_get = (\<lambda>t u.
        if u = ''https://example.com'' then Responded (html_page [''https://blog.example.com/b''])
        else if u = ''https://blog.example.com/b'' then Responded (html_page [''https://example.com/a''])
        else RequestException ''timeout''),
     url_open = (\<lambda>t u. TransferFailed ''refused''),
     write_error = (\<lambda>t p. None),
     stop_time = None,
     urlparse = py_urlparse,
     urljoin = (\<lambda>b u. Inr (b @ u))\<rparr>"

definition demo_start :: worker where
  "demo_start = \<lparr>res = empty_results, visited_urls = {||}, queue = [], download_dirs = None,
     manifest = [], fs = fmempty, events = [], clock = 0\<rparr>"

definition demo_seed :: url where
  "demo_seed = ''https://example.com''"

definition demo_first :: worker where
  "demo_first = scrape_page demo_world demo_opts
      (demo_start\<lparr>queue := queue demo_start @ [demo_seed]\<rparr>\<lparr>clock := 1, queue := []\<rparr>) demo_seed"

lemma demo_init: "init_worker demo_world demo_opts demo_seed [] fmempty = Inr demo_start"
  by (simp add: init_worker_def demo_opts_def demo_start_def get_or_def)

lemma demo_reach:
  "reach demo_world demo_opts (demo_start\<lparr>queue := queue demo_start @ [demo_seed]\<rparr>) demo_first"
proof -
  let ?s = "demo_start\<lparr>queue := queue demo_start @ [demo_seed]\<rparr>"
  have "reach demo_world demo_opts ?s
          (scrape_page demo_world demo_opts (?s\<lparr>clock := Suc (clock ?s), queue := []\<rparr>) demo_seed)"
    by (rule reach_step [OF reach_start])
       (simp_all add: demo_start_def running_at_def demo_world_def max_pages_def demo_opts_def get_or_def
          fcard_fempty)
  then show ?thesis by (simp add: demo_first_def demo_start_def)
qed

section \<open>Properties of the crawl\<close>

text \<open>
  C1.  The visited set is a set (\<open>url fset\<close>), so it holds no URL twice.  From the
  state that \<open>__init__\<close> builds, with a non-negative page limit, its size is at most
  \<open>max_pages\<close> at every head of the crawl loop and when the loop has ended; the loop
  takes a URL from the queue only while the size is below the limit (the guard of
  \<open>reach_step\<close>; at the limit the loop ends without a further event), and a call of
  \<open>scrape_page\<close> adds at most one URL and removes none.
\<close>

theorem visited_bounded_by_max_pages:
  assumes "init_worker w opts seed stamp files = Inr s0"
    and "0 \<le> max_pages opts"
    and "reach w opts (s0\<lparr>queue := queue s0 @ [seed]\<rparr>) s"
  shows "int (fcard (visited_urls s)) \<le> max_pages opts \<and>
         int (fcard (visited_urls (crawl_loop w opts s))) \<le> max_pages opts \<and>
         fcard (visited_urls (scrape_page w opts s u)) \<le> Suc (fcard (visited_urls s)) \<and>
         visited_urls s |\<subseteq>| visited_urls (scrape_page w opts s u) \<and>
         (int (fcard (visited_urls s)) < max_pages opts \<or> events (crawl_loop w opts s) = events s)"
proof -
  let ?s1 = "s0\<lparr>queue := queue s0 @ [seed]\<rparr>"
  have d: "int (fcard (visited_urls s)) < max_pages opts \<or> events (crawl_loop w opts s) = events s"
  proof (cases "int (fcard (visited_urls s)) < max_pages opts")
    case True
    then show ?thesis by simp
  next
    case False
    show ?thesis
    proof (cases "queue s")
      case Nil
      then show ?thesis by (simp add: crawl_loop_empty)
    next
      case (Cons next_url rest)
      from crawl_loop_exit [OF Cons, of w opts] False show ?thesis by simp
    qed
  qed
  from init_worker_frontier [OF assms(1)] assms(2)
  have start: "int (fcard (visited_urls ?s1)) \<le> max_pages opts" by (simp add: fcard_fempty)
  from reach_visited_bounded [OF assms(3) start]
  have a: "int (fcard (visited_urls s)) \<le> max_pages opts" .
  obtain t where t: "reach w opts s t" "visited_urls (crawl_loop w opts s) = visited_urls t"
    using crawl_loop_reach [of w opts s] by blast
  from reach_trans [OF t(1) assms(3)] have "reach w opts ?s1 t" .
  from reach_visited_bounded [OF this start] t(2)
  have b: "int (fcard (visited_urls (crawl_loop w opts s))) \<le> max_pages opts" by simp
  have c: "visited_urls s |\<subseteq>| visited_urls (scrape_page w opts s u)"
    by (auto simp: scrape_page_visited)
  from a b c d scrape_page_visited_le [of w opts s u] show ?thesis by simp
qed

theorem visited_bounded_by_max_pages_witness:
  "init_worker demo_world demo_opts demo_seed [] fmempty = Inr demo_start \<and>
   0 \<le> max_pages demo_opts \<and>
   reach demo_world demo_opts (demo_start\<lparr>queue := queue demo_start @ [demo_seed]\<rparr>) demo_first \<and>
   int (fcard (visited_urls demo_first)) \<le> max_pages demo_opts \<and>
   int (fcard (visited_urls (crawl_loop demo_world demo_opts demo_first))) \<le> max_pages demo_opts \<and>
   fcard (visited_urls (scrape_page demo_world demo_opts demo_first demo_seed))
     \<le> Suc (fcard (visited_urls demo_first)) \<and>
   visited_urls demo_first |\<subseteq>| visited_urls (scrape_page demo_world demo_opts demo_first demo_seed)"
proof -
  have pos: "0 \<le> max_pages demo_opts"
    by (simp add: max_pages_def demo_opts_def get_or_def)
  from visited_bounded_by_max_pages [OF demo_init pos demo_reach, of demo_seed] demo_init pos demo_reach
  show ?thesis by simp
qed

text \<open>
  C2.  From the initial state, at every head of the crawl loop and when the loop has
  ended, the queue holds no URL twice and no visited URL; a link is appended by the
  loop over the anchors only when it is neither visited nor queued, and the only URL
  that \<open>scrape_page\<close> can add to the visited set is the one it was called with, the
  one taken from the queue.
\<close>

theorem queue_disjoint_from_visited:
  assumes "init_worker w opts seed stamp files = Inr s0"
    and "reach w opts (s0\<lparr>queue := queue s0 @ [seed]\<rparr>) s"
  shows "queue_ok s \<and> queue_ok (crawl_loop w opts s) \<and>
         (queue (fst (process_anchor w opts base_url base_domain s a)) = queue s \<or>
          (\<exists>x. queue (fst (process_anchor w opts base_url base_domain s a)) = queue s @ [x] \<and>
               x |\<notin>| visited_urls s \<and> x \<notin> set (queue s))) \<and>
         (visited_urls (scrape_page w opts s u) = visited_urls s \<or>
          visited_urls (scrape_page w opts s u) = finsert u (visited_urls s))"
proof -
  let ?s1 = "s0\<lparr>queue := queue s0 @ [seed]\<rparr>"
  have d: "visited_urls (scrape_page w opts s u) = visited_urls s \<or>
           visited_urls (scrape_page w opts s u) = finsert u (visited_urls s)"
    by (simp add: scrape_page_visited)
  from init_worker_frontier [OF assms(1)] have start: "queue_ok ?s1"
    by (simp add: queue_ok_def)
  from reach_queue_ok [OF assms(2) start] have a: "queue_ok s" .
  obtain t where t: "reach w opts s t" "visited_urls (crawl_loop w opts s) = visited_urls t"
      "queue (crawl_loop w opts s) = queue t"
    using crawl_loop_reach [of w opts s] by blast
  from reach_queue_ok [OF reach_trans [OF t(1) assms(2)] start] t(2,3)
  have b: "queue_ok (crawl_loop w opts s)" by (simp add: queue_ok_def)
  have c: "queue (fst (process_anchor w opts base_url base_domain s a)) = queue s \<or>
          (\<exists>x. queue (fst (process_anchor w opts base_url base_domain s a)) = queue s @ [x] \<and>
               x |\<notin>| visited_urls s \<and> x \<notin> set (queue s))"
    by (auto simp: process_anchor_def Let_def split: sum.splits bool.splits)
  from a b c d show ?thesis by blast
qed

theorem queue_disjoint_from_visited_witness:
  "init_worker demo_world demo_opts demo_seed [] fmempty = Inr demo_start \<and>
   reach demo_world demo_opts (demo_start\<lparr>queue := queue demo_start @ [demo_seed]\<rparr>) demo_first \<and>
   queue_ok demo_first \<and> queue_ok (crawl_loop demo_world demo_opts demo_first)"
  using queue_disjoint_from_visited [OF demo_init demo_reach] demo_init demo_reach
  by simp







definition pdf_response :: response where
  "pdf_response = \<lparr>content = ''%PDF-1.4'', content_type = ''application/pdf'', soup = empty_doc,
     status_code = 200, history = []\<rparr>"

definition demo_pdf :: url where
  "demo_pdf = ''https://example.com/download''"

definition pdf_world :: world where
  "pdf_world = demo_world\<lparr>http_get :=
     (\<lambda>t u. if u = demo_pdf then Responded pdf_response else http_get demo_world t u)\<rparr>"

definition stopped_world :: world where
  "stopped_world = demo_world\<lparr>stop_time := Some 3\<rparr>"



lemma scrape_page_proceeds:
  assumes "u |\<notin>| visited_urls s" "running_at w (clock s)"
  shows "scrape_page w opts s u =
     (case scrape_body w opts u (mark_visited u (s\<lparr>clock := Suc (clock s)\<rparr>)) of
        (s2, Inl e) \<Rightarrow> emit (Error (''Error scraping '' @ u @ '': '' @ e)) s2
      | (s2, Inr _) \<Rightarrow> s2)"
  using assms by (simp add: scrape_page_def read_running_def)

lemma scrape_body_got:
  assumes "retry_loop w u s 0 = (s1, Got response)"
  shows "scrape_body w opts u s =
     and_then (save_html w opts u response
                 (s1\<lparr>res := (res s1)\<lparr>total_data_size :=
                          total_data_size (res s1) + length (content response)\<rparr>\<rparr>))
       (\<lambda>s3. if \<not> prefix ''text/html'' (content_type response) then (s3, Inr ())
             else extract_page w opts u response s3)"
  using assms by (simp add: scrape_body_def)

lemma save_html_res:
  "save_html w opts u response s = (s', r) \<Longrightarrow>
   res s' = (res s)\<lparr>downloaded_html := downloaded_html (res s')\<rparr>"
  by (auto simp: save_html_def Let_def split: option.splits if_splits)

lemma retry_loop_res:
  "retry_loop w u s n = (s', r) \<Longrightarrow> r \<noteq> GaveUp \<Longrightarrow> res s' = res s"
proof (induction w u s n rule: retry_loop.induct)
  case (1 w u s retry_count)
  show ?case
  proof (cases "retry_count < max_retries")
    case False
    with "1.prems" show ?thesis by (auto simp: retry_loop.simps [of w u s retry_count])
  next
    case True
    let ?s1 = "s\<lparr>clock := Suc (clock s), events := events s @ [HttpGet u]\<rparr>"
    show ?thesis
    proof (cases "http_get w (clock s) u")
      case (Responded response)
      with True "1.prems" show ?thesis by (auto simp: retry_loop.simps [of w u s retry_count])
    next
      case (OtherException e)
      with True "1.prems" show ?thesis by (auto simp: retry_loop.simps [of w u s retry_count])
    next
      case (RequestException e)
      show ?thesis
      proof (cases "Suc retry_count \<ge> max_retries")
        case True
        with \<open>retry_count < max_retries\<close> RequestException "1.prems" show ?thesis
          by (auto simp: retry_loop.simps [of w u s retry_count] emit_def)
      next
        case False
        with \<open>retry_count < max_retries\<close> RequestException "1.prems"
        have rec: "retry_loop w u (emit (Sleep 1) ?s1) (Suc retry_count) = (s', r)"
          by (simp add: retry_loop.simps [of w u s retry_count])
        from "1.IH" [OF \<open>retry_count < max_retries\<close> refl RequestException False rec "1.prems"(2)]
        show ?thesis by (simp add: emit_def)
      qed
    qed
  qed
qed

lemma scrape_page_after_fetch:
  assumes "u |\<notin>| visited_urls s" and "running_at w (clock s)"
    and "retry_loop w u (mark_visited u (s\<lparr>clock := Suc (clock s)\<rparr>)) 0 = (s1, Got response)"
  shows "errors (res (scrape_page w opts s u)) = errors (res s) \<and>
         total_data_size (res (scrape_page w opts s u)) =
           total_data_size (res s) + length (content response)"
proof -
  let ?s2 = "s1\<lparr>res := (res s1)\<lparr>total_data_size :=
                 total_data_size (res s1) + length (content response)\<rparr>\<rparr>"
  from retry_loop_res [OF assms(3)] have r1: "res s1 = res s"
    by (simp add: mark_visited_def emit_def)
  obtain s3 r where rest: "scrape_body w opts u (mark_visited u (s\<lparr>clock := Suc (clock s)\<rparr>)) = (s3, r)"
    by (cases "scrape_body w opts u (mark_visited u (s\<lparr>clock := Suc (clock s)\<rparr>))")
  with scrape_body_got [OF assms(3), of opts]
  have "and_then (save_html w opts u response ?s2)
          (\<lambda>s3. if \<not> prefix ''text/html'' (content_type response) then (s3, Inr ())
                else extract_page w opts u response s3) = (s3, r)"
    by simp
  then have "frame w ?s2 s3" by (rule after_fetch_frame)
  with r1 have "errors (res s3) = errors (res s)"
    and "total_data_size (res s3) = total_data_size (res s) + length (content response)"
    by (simp_all add: frame_def keeps_def)
  with rest show ?thesis
    by (cases r) (simp_all add: scrape_page_proceeds [OF assms(1,2)] emit_def)
qed

lemma scrape_page_no_response:
  assumes "u |\<notin>| visited_urls s" and "running_at w (clock s)"
    and "retry_loop w u (mark_visited u (s\<lparr>clock := Suc (clock s)\<rparr>)) 0 = (s1, f)"
    and "\<forall>response. f \<noteq> Got response"
  shows "visited_pages (res (scrape_page w opts s u)) = visited_pages (res s)"
proof -
  from retry_loop_keeps [OF assms(3)]
  have k: "res s1 = (res (mark_visited u (s\<lparr>clock := Suc (clock s)\<rparr>)))\<lparr>errors := errors (res s1)\<rparr>"
    by simp
  from arg_cong [OF k, of visited_pages] have "visited_pages (res s1) = visited_pages (res s)"
    by (simp add: mark_visited_def emit_def)
  with assms(3,4) show ?thesis
    by (cases f) (simp_all add: scrape_page_proceeds [OF assms(1,2)] scrape_body_def emit_def)
qed

lemma non_html_res:
  assumes "u |\<notin>| visited_urls s" and "running_at w (clock s)"
    and "retry_loop w u (mark_visited u (s\<lparr>clock := Suc (clock s)\<rparr>)) 0 = (s1, Got response)"
    and "\<not> prefix ''text/html'' (content_type response)"
  shows "res (scrape_page w opts s u) =
           (res s)\<lparr>total_data_size := total_data_size (res s) + length (content response),
                   downloaded_html := downloaded_html (res (scrape_page w opts s u))\<rparr> \<and>
         errors (res (scrape_page w opts s u)) = errors (res s) \<and>
         visited_pages (res (scrape_page w opts s u)) = visited_pages (res s)"
proof -
  let ?s2 = "s1\<lparr>res := (res s1)\<lparr>total_data_size :=
                 total_data_size (res s1) + length (content response)\<rparr>\<rparr>"
  from retry_loop_res [OF assms(3)] have r1: "res s1 = res s"
    by (simp add: mark_visited_def emit_def)
  obtain s3 r where sv: "save_html w opts u response ?s2 = (s3, r)"
    by (cases "save_html w opts u response ?s2")
  from save_html_res [OF sv] r1
  have r3: "res s3 = (res s)\<lparr>total_data_size := total_data_size (res s) + length (content response),
                              downloaded_html := downloaded_html (res s3)\<rparr>"
    by simp
  have page: "res (scrape_page w opts s u) = res s3"
    using sv assms(4)
    by (cases r) (simp_all add: scrape_page_proceeds [OF assms(1,2)] scrape_body_got [OF assms(3)]
                     and_then_def emit_def)
  have "res (scrape_page w opts s u) =
           (res s)\<lparr>total_data_size := total_data_size (res s) + length (content response),
                   downloaded_html := downloaded_html (res (scrape_page w opts s u))\<rparr>"
    by (subst (1 2) page) (rule r3)
  moreover from arg_cong [OF r3, of errors] have "errors (res s3) = errors (res s)" by simp
  moreover from arg_cong [OF r3, of visited_pages]
  have "visited_pages (res s3) = visited_pages (res s)" by simp
  ultimately show ?thesis by (simp add: page)
qed


lemma visited_pages_only_after_html:
  assumes "visited_pages (res (scrape_page w opts t v)) \<noteq> visited_pages (res t)"
  shows "\<exists>t1 page. retry_loop w v (mark_visited v (t\<lparr>clock := Suc (clock t)\<rparr>)) 0 = (t1, Got page) \<and>
           prefix ''text/html'' (content_type page)"
proof -
  have "proceeds w t v"
  proof (rule ccontr)
    assume "\<not> proceeds w t v"
    from scrape_page_skip [OF this, of opts] assms show False
      by (simp split: if_splits)
  qed
  then have p: "v |\<notin>| visited_urls t" "running_at w (clock t)"
    by (simp_all add: proceeds_def)
  obtain t1 f where fetch: "retry_loop w v (mark_visited v (t\<lparr>clock := Suc (clock t)\<rparr>)) 0 = (t1, f)"
    by (cases "retry_loop w v (mark_visited v (t\<lparr>clock := Suc (clock t)\<rparr>)) 0")
  show ?thesis
  proof (cases "\<exists>page. f = Got page")
    case False
    with scrape_page_no_response [OF p fetch, of opts] assms show ?thesis by simp
  next
    case True
    then obtain page where f: "f = Got page" by blast
    with non_html_res [OF p, of t1 page opts] fetch assms
    have "prefix ''text/html'' (content_type page)" by auto
    with fetch f show ?thesis by blast
  qed
qed

lemma pdf_fetch:
  "retry_loop pdf_world demo_pdf (mark_visited demo_pdf (demo_start\<lparr>clock := Suc (clock demo_start)\<rparr>)) 0 =
     (fst (retry_loop pdf_world demo_pdf
             (mark_visited demo_pdf (demo_start\<lparr>clock := Suc (clock demo_start)\<rparr>)) 0),
      Got pdf_response)"
proof -
  have get: "\<And>t. http_get pdf_world t demo_pdf = Responded pdf_response"
    by (simp add: pdf_world_def)
  show ?thesis
    by (simp add: retry_loop.simps [of pdf_world demo_pdf _ 0] get max_retries_def)
qed

text \<open>
  Relations between the state before and the state after a statement, carried through
  the loops and the sequencing of \<open>extract_page\<close>.
\<close>

lemma for_each_rel:
  assumes "\<And>s. R s s" and "\<And>a b c. R a b \<Longrightarrow> R b c \<Longrightarrow> R a c"
    and "\<And>s x s' r. f s x = (s', r) \<Longrightarrow> R s s'"
  shows "for_each f s xs = (s', r) \<Longrightarrow> R s s'"
proof (induction xs arbitrary: s)
  case Nil
  then show ?case by (simp add: assms(1))
next
  case (Cons x xs)
  obtain s1 r1 where fx: "f s x = (s1, r1)" by (cases "f s x")
  have step: "R s s1" using assms(3) fx by blast
  show ?case
  proof (cases r1)
    case (Inl e)
    with fx Cons.prems step show ?thesis by simp
  next
    case (Inr v)
    with fx Cons.prems have "for_each f s1 xs = (s', r)" by simp
    with step Cons.IH assms(2) show ?thesis by blast
  qed
qed

lemma and_then_rel:
  assumes "\<And>a b c. R a b \<Longrightarrow> R b c \<Longrightarrow> R a c"
    and "and_then x g = (s', v)"
    and "\<And>s1 v1. x = (s1, v1) \<Longrightarrow> R s s1"
    and "\<And>s1 s2 v2. g s1 = (s2, v2) \<Longrightarrow> R s1 s2"
  shows "R s s'"
proof (cases x)
  case (Pair s1 v1)
  show ?thesis
  proof (cases v1)
    case (Inl e)
    with Pair assms(2,3) show ?thesis by (simp add: and_then_def)
  next
    case (Inr u)
    with Pair assms(2) have "g s1 = (s', v)" by (simp add: and_then_def)
    with Pair assms(1,3,4) show ?thesis by blast
  qed
qed

lemma and_then_Inr: "and_then (s, Inr v) g = g s"
  by (simp add: and_then_def)

lemma and_then_Inl: "and_then (s, Inl e) g = (s, Inl e)"
  by (simp add: and_then_def)

lemma and_then_ok:
  "and_then x g = (s', Inr ()) \<Longrightarrow> \<exists>s1. x = (s1, Inr ())"
  by (cases x) (auto simp: and_then_def split: sum.splits)

text \<open>Statements other than the end of the page leave the page counter alone.\<close>

definition same_pages :: "worker \<Rightarrow> worker \<Rightarrow> bool" where
  "same_pages s s' \<longleftrightarrow> visited_pages (res s') = visited_pages (res s)"

lemma same_pages_refl: "same_pages s s"
  by (simp add: same_pages_def)

lemma same_pages_trans: "same_pages a b \<Longrightarrow> same_pages b c \<Longrightarrow> same_pages a c"
  by (simp add: same_pages_def)

lemma for_each_same_pages:
  assumes "\<And>s x s' r. f s x = (s', r) \<Longrightarrow> same_pages s s'"
  shows "for_each f s xs = (s', r) \<Longrightarrow> same_pages s s'"
  using same_pages_refl same_pages_trans assms by (rule for_each_rel [where R = same_pages])

lemma and_then_same_pages:
  assumes "and_then x g = (s', v)"
    and "\<And>s1 v1. x = (s1, v1) \<Longrightarrow> same_pages s s1"
    and "\<And>s1 s2 v2. g s1 = (s2, v2) \<Longrightarrow> same_pages s1 s2"
  shows "same_pages s s'"
  using same_pages_trans assms by (rule and_then_rel [where R = same_pages])

lemma download_body_same_pages: "download_body w s u d ft = (s', r) \<Longrightarrow> same_pages s s'"
  by (auto simp: download_body_def same_pages_def Let_def
           split: sum.splits transfer.splits option.splits)

lemma download_file_same_pages: "download_file w s u d ft = (s', r) \<Longrightarrow> same_pages s s'"
  by (auto simp: download_file_def read_running_def emit_def same_pages_def
           split: sum.splits prod.splits if_splits dest!: download_body_same_pages)

lemma process_anchor_same_pages: "process_anchor w opts b d s a = (s', r) \<Longrightarrow> same_pages s s'"
  by (auto simp: process_anchor_def same_pages_def Let_def
           split: sum.splits bool.splits if_splits)

lemma process_img_same_pages: "process_img w opts b s a = (s', r) \<Longrightarrow> same_pages s s'"
  by (auto simp: process_img_def same_pages_def Let_def
           split: sum.splits option.splits prod.splits if_splits dest!: download_file_same_pages)

lemma process_script_same_pages: "process_script w opts b s a = (s', r) \<Longrightarrow> same_pages s s'"
  by (auto simp: process_script_def same_pages_def Let_def
           split: sum.splits option.splits prod.splits if_splits dest!: download_file_same_pages)

lemma process_stylesheet_same_pages:
  "process_stylesheet w opts b s a = (s', r) \<Longrightarrow> same_pages s s'"
  by (auto simp: process_stylesheet_def same_pages_def Let_def
           split: sum.splits option.splits prod.splits if_splits dest!: download_file_same_pages)

lemma extract_links_step_same_pages:
  "extract_links_step w opts b d doc s = (s', r) \<Longrightarrow> same_pages s s'"
  by (auto simp: extract_links_step_def same_pages_refl split: if_splits
           elim: for_each_same_pages [rotated] process_anchor_same_pages)

lemma extract_images_step_same_pages:
  "extract_images_step w opts b doc s = (s', r) \<Longrightarrow> same_pages s s'"
  by (auto simp: extract_images_step_def same_pages_refl split: if_splits
           elim: for_each_same_pages [rotated] process_img_same_pages)

lemma extract_text_step_same_pages: "extract_text_step opts u doc s = (s', r) \<Longrightarrow> same_pages s s'"
  by (auto simp: extract_text_step_def same_pages_def split: if_splits)

lemma extract_contacts_step_same_pages:
  "extract_contacts_step opts doc s = (s', r) \<Longrightarrow> same_pages s s'"
  by (auto simp: extract_contacts_step_def same_pages_def split: if_splits)

lemma extract_meta_step_same_pages: "extract_meta_step opts u doc s = (s', r) \<Longrightarrow> same_pages s s'"
  by (auto simp: extract_meta_step_def same_pages_def split: if_splits)

lemma extract_forms_step_same_pages: "extract_forms_step opts u doc s = (s', r) \<Longrightarrow> same_pages s s'"
  by (auto simp: extract_forms_step_def same_pages_def split: if_splits)

lemma extract_resources_step_same_pages:
  assumes "extract_resources_step w opts b doc s = (s', r)"
  shows "same_pages s s'"
proof (cases "get_or (opt_extract_resources opts) True")
  case False
  with assms show ?thesis by (simp add: extract_resources_step_def same_pages_refl)
next
  case True
  with assms
  have "and_then (for_each (process_script w opts b) s (script_srcs doc))
          (\<lambda>s1. for_each (process_stylesheet w opts b) s1 (stylesheet_hrefs doc)) = (s', r)"
    by (simp add: extract_resources_step_def)
  then show ?thesis
    apply (rule and_then_same_pages)
     apply (erule for_each_same_pages [rotated], erule process_script_same_pages)
    apply (erule for_each_same_pages [rotated], erule process_stylesheet_same_pages)
    done
qed

lemma save_html_same_pages: "save_html w opts u response s = (s', r) \<Longrightarrow> same_pages s s'"
  by (auto simp: save_html_def same_pages_def Let_def split: option.splits if_splits)

lemma finish_page_counts:
  "finish_page opts s = (s', r) \<Longrightarrow> visited_pages (res s') = visited_pages (res s) + 1"
  by (auto simp: finish_page_def emit_def Let_def split: if_splits)

lemma and_then_okE:
  assumes "and_then x g = (s', Inr ())"
  obtains s1 where "x = (s1, Inr ())" and "g s1 = (s', Inr ())"
  using assms by (cases x) (auto simp: and_then_def split: sum.splits)

text \<open>A page whose extraction raises nothing is counted once.\<close>

lemma extract_page_counts:
  assumes "extract_page w opts u response s = (s', Inr ())"
  shows "visited_pages (res s') = visited_pages (res s) + 1"
proof -
  from assms obtain base_url base_domain where
    "and_then (extract_links_step w opts base_url base_domain (soup response) s)
       (\<lambda>s. and_then (extract_images_step w opts base_url (soup response) s)
       (\<lambda>s. and_then (extract_text_step opts u (soup response) s)
       (\<lambda>s. and_then (extract_contacts_step opts (soup response) s)
       (\<lambda>s. and_then (extract_meta_step opts u (soup response) s)
       (\<lambda>s. and_then (extract_forms_step opts u (soup response) s)
       (\<lambda>s. and_then (extract_resources_step w opts base_url (soup response) s)
       (finish_page opts))))))) = (s', Inr ())"
    by (auto simp: extract_page_def Let_def split: sum.splits)
  then obtain s1 s2 s3 s4 s5 s6 s7 where
    "extract_links_step w opts base_url base_domain (soup response) s = (s1, Inr ())"
    "extract_images_step w opts base_url (soup response) s1 = (s2, Inr ())"
    "extract_text_step opts u (soup response) s2 = (s3, Inr ())"
    "extract_contacts_step opts (soup response) s3 = (s4, Inr ())"
    "extract_meta_step opts u (soup response) s4 = (s5, Inr ())"
    "extract_forms_step opts u (soup response) s5 = (s6, Inr ())"
    "extract_resources_step w opts base_url (soup response) s6 = (s7, Inr ())"
    "finish_page opts s7 = (s', Inr ())"
    by (elim and_then_okE) blast
  then have "same_pages s s1" "same_pages s1 s2" "same_pages s2 s3" "same_pages s3 s4"
    "same_pages s4 s5" "same_pages s5 s6" "same_pages s6 s7"
    "visited_pages (res s') = visited_pages (res s7) + 1"
    by (blast intro: extract_links_step_same_pages extract_images_step_same_pages
          extract_text_step_same_pages extract_contacts_step_same_pages
          extract_meta_step_same_pages extract_forms_step_same_pages
          extract_resources_step_same_pages finish_page_counts)+
  then show ?thesis by (simp add: same_pages_def)
qed

lemma html_page_is_counted:
  assumes "u |\<notin>| visited_urls s" and "running_at w (clock s)"
    and "retry_loop w u (mark_visited u (s\<lparr>clock := Suc (clock s)\<rparr>)) 0 = (s1, Got response)"
    and "prefix ''text/html'' (content_type response)"
    and "snd (scrape_body w opts u (mark_visited u (s\<lparr>clock := Suc (clock s)\<rparr>))) = Inr ()"
  shows "visited_pages (res (scrape_page w opts s u)) = visited_pages (res s) + 1"
proof -
  let ?s0 = "mark_visited u (s\<lparr>clock := Suc (clock s)\<rparr>)"
  let ?s2 = "s1\<lparr>res := (res s1)\<lparr>total_data_size :=
                 total_data_size (res s1) + length (content response)\<rparr>\<rparr>"
  obtain s' where body: "scrape_body w opts u ?s0 = (s', Inr ())"
    using assms(5) by (cases "scrape_body w opts u ?s0") simp
  from retry_loop_res [OF assms(3)] have r1: "res s1 = res s"
    by (simp add: mark_visited_def emit_def)
  from body scrape_body_got [OF assms(3), of opts] assms(4)
  have "and_then (save_html w opts u response ?s2)
          (\<lambda>s3. extract_page w opts u response s3) = (s', Inr ())"
    by simp
  then obtain s3 where sv: "save_html w opts u response ?s2 = (s3, Inr ())"
    and ex: "extract_page w opts u response s3 = (s', Inr ())"
    by (rule and_then_okE)
  from save_html_same_pages [OF sv] r1 have "visited_pages (res s3) = visited_pages (res s)"
    by (simp add: same_pages_def)
  with extract_page_counts [OF ex] have "visited_pages (res s') = visited_pages (res s) + 1"
    by simp
  with body show ?thesis by (simp add: scrape_page_proceeds [OF assms(1,2)])
qed

text \<open>
  A page that is reached through a redirect.  \<open>allow_redirects\<close> is on unless the
  options turn it off, so \<open>requests\<close> follows the redirect and returns the final
  response; its \<open>history\<close> holds the redirect that was followed.
\<close>

definition moved_page :: response where
  "moved_page = (html_page [])\<lparr>history := [''http://example.com'']\<rparr>"

definition redirect_world :: world where
  "redirect_world = pdf_world\<lparr>http_get :=
     (\<lambda>t u. if u = demo_seed then Responded moved_page else http_get pdf_world t u)\<rparr>"

lemma moved_fetch:
  "retry_loop redirect_world demo_seed
     (mark_visited demo_seed (demo_start\<lparr>clock := Suc (clock demo_start)\<rparr>)) 0 =
     (fst (retry_loop redirect_world demo_seed
             (mark_visited demo_seed (demo_start\<lparr>clock := Suc (clock demo_start)\<rparr>)) 0),
      Got moved_page)"
proof -
  have get: "\<And>t. http_get redirect_world t demo_seed = Responded moved_page"
    by (simp add: redirect_world_def)
  show ?thesis
    by (simp add: retry_loop.simps [of redirect_world demo_seed _ 0] get max_retries_def)
qed

lemma redirect_pdf_fetch:
  "retry_loop redirect_world demo_pdf
     (mark_visited demo_pdf (demo_start\<lparr>clock := Suc (clock demo_start)\<rparr>)) 0 =
     (fst (retry_loop redirect_world demo_pdf
             (mark_visited demo_pdf (demo_start\<lparr>clock := Suc (clock demo_start)\<rparr>)) 0),
      Got pdf_response)"
proof -
  have "demo_pdf \<noteq> demo_seed" by (simp add: demo_pdf_def demo_seed_def)
  then have get: "\<And>t. http_get redirect_world t demo_pdf = Responded pdf_response"
    by (simp add: redirect_world_def pdf_world_def)
  show ?thesis
    by (simp add: retry_loop.simps [of redirect_world demo_pdf _ 0] get max_retries_def)
qed

text \<open>
  C6, as stated, fails: the page \<open>https://example.com\<close>, reached through a redirect
  from \<open>http://example.com\<close> and arriving as \<open>text/html\<close>, is extracted and
  counted, and no error is recorded.
\<close>

theorem redirected_page_is_counted_counterexample:
  "history moved_page \<noteq> [] \<and>
   snd (retry_loop redirect_world demo_seed
          (mark_visited demo_seed (demo_start\<lparr>clock := Suc (clock demo_start)\<rparr>)) 0) = Got moved_page \<and>
   visited_pages (res demo_start) = 0 \<and>
   visited_pages (res (scrape_page redirect_world demo_opts demo_start demo_seed)) = 1 \<and>
   errors (res (scrape_page redirect_world demo_opts demo_start demo_seed)) = []"
  by code_simp

text \<open>
  C6, amended.  When the fetch returns a response whose content type does not start with
  \<open>text/html\<close>, the page leaves the results as they were, apart from the byte
  counter and the record of the saved page: nothing is extracted, no error is
  recorded and the page counter is not incremented.  Whenever a call of
  \<open>scrape_page\<close> changes the page counter, the fetch returned a \<open>text/html\<close>
  response, so a failed fetch is not counted.  A \<open>text/html\<close> response whose page
  is processed without an exception is counted once, whatever its \<open>status_code\<close>
  and its \<open>history\<close>: a page reached through a redirect counts like any other.
\<close>

theorem non_html_skips_extraction:
  assumes "u |\<notin>| visited_urls s" and "running_at w (clock s)"
    and "retry_loop w u (mark_visited u (s\<lparr>clock := Suc (clock s)\<rparr>)) 0 = (s1, Got response)"
    and "\<not> prefix ''text/html'' (content_type response)"
  shows "res (scrape_page w opts s u) =
           (res s)\<lparr>total_data_size := total_data_size (res s) + length (content response),
                   downloaded_html := downloaded_html (res (scrape_page w opts s u))\<rparr> \<and>
         errors (res (scrape_page w opts s u)) = errors (res s) \<and>
         visited_pages (res (scrape_page w opts s u)) = visited_pages (res s) \<and>
         (visited_pages (res (scrape_page w opts t v)) \<noteq> visited_pages (res t) \<longrightarrow>
            (\<exists>t1 page. retry_loop w v (mark_visited v (t\<lparr>clock := Suc (clock t)\<rparr>)) 0 = (t1, Got page) \<and>
                       prefix ''text/html'' (content_type page))) \<and>
         (v |\<notin>| visited_urls t \<and> running_at w (clock t) \<and>
          retry_loop w v (mark_visited v (t\<lparr>clock := Suc (clock t)\<rparr>)) 0 = (t2, Got moved) \<and>
          prefix ''text/html'' (content_type moved) \<and>
          snd (scrape_body w opts v (mark_visited v (t\<lparr>clock := Suc (clock t)\<rparr>))) = Inr () \<longrightarrow>
            visited_pages (res (scrape_page w opts t v)) = visited_pages (res t) + 1)"
  using non_html_res [OF assms] visited_pages_only_after_html [of w opts t v]
    html_page_is_counted [of v t w t2 moved opts]
  by blast

theorem non_html_skips_extraction_witness:
  "errors (res (scrape_page pdf_world demo_opts demo_start demo_pdf)) = [] \<and>
   visited_pages (res (scrape_page pdf_world demo_opts demo_start demo_pdf)) = 0 \<and>
   links (res (scrape_page pdf_world demo_opts demo_start demo_pdf)) = {} \<and>
   visited_pages (res (scrape_page pdf_world demo_opts demo_start demo_seed))
     \<noteq> visited_pages (res demo_start) \<and>
   (\<exists>t1 page. retry_loop pdf_world demo_seed
                 (mark_visited demo_seed (demo_start\<lparr>clock := Suc (clock demo_start)\<rparr>)) 0 = (t1, Got page) \<and>
               prefix ''text/html'' (content_type page)) \<and>
   history moved_page \<noteq> [] \<and>
   visited_pages (res (scrape_page redirect_world demo_opts demo_start demo_seed)) =
     visited_pages (res demo_start) + 1"
proof -
  have h: "demo_pdf |\<notin>| visited_urls demo_start" "running_at pdf_world (clock demo_start)"
    by (simp_all add: demo_start_def pdf_world_def demo_world_def running_at_def)
  have nh: "\<not> prefix ''text/html'' (content_type pdf_response)"
    by (simp add: pdf_response_def)
  have changed: "visited_pages (res (scrape_page pdf_world demo_opts demo_start demo_seed))
     \<noteq> visited_pages (res demo_start)"
    by code_simp
  note inst = non_html_skips_extraction [OF h pdf_fetch nh,
      where opts = demo_opts and t = demo_start and v = demo_seed]
  from inst changed have "\<exists>t1 page. retry_loop pdf_world demo_seed
                 (mark_visited demo_seed (demo_start\<lparr>clock := Suc (clock demo_start)\<rparr>)) 0 = (t1, Got page) \<and>
               prefix ''text/html'' (content_type page)"
    by blast
  moreover from inst have "res (scrape_page pdf_world demo_opts demo_start demo_pdf) =
           (res demo_start)\<lparr>total_data_size := total_data_size (res demo_start) + length (content pdf_response),
                   downloaded_html := downloaded_html (res (scrape_page pdf_world demo_opts demo_start demo_pdf))\<rparr>"
    by blast
  from arg_cong [OF this, of links] have "links (res (scrape_page pdf_world demo_opts demo_start demo_pdf)) = {}"
    by (simp add: demo_start_def empty_results_def)
  moreover from inst have "errors (res (scrape_page pdf_world demo_opts demo_start demo_pdf)) = []"
    and "visited_pages (res (scrape_page pdf_world demo_opts demo_start demo_pdf)) = 0"
    by (simp_all add: demo_start_def empty_results_def)
  moreover have "history moved_page \<noteq> []"
    by (simp add: moved_page_def)
  moreover have "visited_pages (res (scrape_page redirect_world demo_opts demo_start demo_seed)) =
     visited_pages (res demo_start) + 1"
  proof -
    have h': "demo_pdf |\<notin>| visited_urls demo_start" "running_at redirect_world (clock demo_start)"
      by (simp_all add: demo_start_def redirect_world_def pdf_world_def demo_world_def running_at_def)
    have seed: "demo_seed |\<notin>| visited_urls demo_start"
      by (simp add: demo_start_def)
    have html: "prefix ''text/html'' (content_type moved_page)"
      by (simp add: moved_page_def html_page_def)
    have ok: "snd (scrape_body redirect_world demo_opts demo_seed
                (mark_visited demo_seed (demo_start\<lparr>clock := Suc (clock demo_start)\<rparr>))) = Inr ()"
      by code_simp
    from non_html_skips_extraction [OF h' redirect_pdf_fetch nh,
      where opts = demo_opts and t = demo_start and v = demo_seed and moved = moved_page
        and ?t2.0 = "fst (retry_loop redirect_world demo_seed
             (mark_visited demo_seed (demo_start\<lparr>clock := Suc (clock demo_start)\<rparr>)) 0)"]
      seed h'(2) moved_fetch html ok
    show ?thesis by blast
  qed
  ultimately show ?thesis using changed by blast
qed

text \<open>
  C10.  When the fetch of a page returns a response within the three attempts, the
  byte counter grows by the length of the response body, whatever the content type
  and whatever happens to the page afterwards.
\<close>

theorem fetched_bytes_are_counted:
  assumes "u |\<notin>| visited_urls s" and "running_at w (clock s)"
    and "retry_loop w u (mark_visited u (s\<lparr>clock := Suc (clock s)\<rparr>)) 0 = (s1, Got response)"
  shows "total_data_size (res (scrape_page w opts s u)) =
           total_data_size (res s) + length (content response)"
  using scrape_page_after_fetch [OF assms] by simp

theorem fetched_bytes_are_counted_witness:
  "total_data_size (res (scrape_page pdf_world demo_opts demo_start demo_pdf)) = 8 \<and>
   visited_pages (res (scrape_page pdf_world demo_opts demo_start demo_pdf)) = 0"
proof -
  have h: "demo_pdf |\<notin>| visited_urls demo_start" "running_at pdf_world (clock demo_start)"
    by (simp_all add: demo_start_def pdf_world_def demo_world_def running_at_def)
  have "visited_pages (res (scrape_page pdf_world demo_opts demo_start demo_pdf)) = 0"
    by code_simp
  with fetched_bytes_are_counted [OF h pdf_fetch, of demo_opts] show ?thesis
    by (simp add: demo_start_def empty_results_def pdf_response_def)
qed

lemma crawl_loop_stopped:
  "\<not> running_at w (clock s) \<Longrightarrow>
   crawl_loop w opts s = (if queue s = [] then s else s\<lparr>clock := Suc (clock s)\<rparr>)"
  by (cases "queue s") (simp_all add: crawl_loop_empty crawl_loop_exit)

lemma scrape_page_stopped:
  "\<not> running_at w (clock s) \<Longrightarrow>
   scrape_page w opts s u = (if u |\<in>| visited_urls s then s else s\<lparr>clock := Suc (clock s)\<rparr>)"
  by (simp add: scrape_page_skip proceeds_def)

lemma download_file_stopped:
  "\<not> running_at w (clock s) \<Longrightarrow> download_file w s u d ft = (s\<lparr>clock := Suc (clock s)\<rparr>, None)"
  by (simp add: download_file_def read_running_def)

lemma extract_page_stopped:
  assumes "\<not> running_at w (clock s)"
  shows "filter is_url_open (events (fst (extract_page w opts u response s))) =
           filter is_url_open (events s) \<and>
         filter is_http_get (events (fst (extract_page w opts u response s))) =
           filter is_http_get (events s)"
proof -
  obtain s' r where e: "extract_page w opts u response s = (s', r)"
    by (cases "extract_page w opts u response s")
  from extract_page_frame [OF e] assms e show ?thesis
    by (simp add: frame_def keeps_def)
qed

definition demo_stopped :: worker where
  "demo_stopped = scrape_page stopped_world demo_opts
      (demo_start\<lparr>queue := [demo_seed]\<rparr>\<lparr>clock := 1, queue := []\<rparr>) demo_seed"

text \<open>
  C9.  The flag is read at the head of the loop, at the start of \<open>scrape_page\<close> and at
  the start of \<open>download_file\<close>, and once it is off it stays off.  When the worker is
  stopped by the time the page \<open>u\<close> is done, the loop ends at its next check and its
  result is the state \<open>s'\<close> after that page, with the clock advanced when the queue is
  not empty: nothing is removed or changed.  In any stopped state \<open>t\<close>, the loop,
  \<open>scrape_page\<close> and \<open>download_file\<close> return at their check without a request, and
  the rest of a page that is being extracted sends no request either.
\<close>

theorem stop_is_cooperative:
  assumes "queue s = u # rest" and "running_at w (clock s)"
    and "int (fcard (visited_urls s)) < max_pages opts"
    and "s' = scrape_page w opts (s\<lparr>clock := Suc (clock s), queue := rest\<rparr>) u"
    and "\<not> running_at w (clock s')"
    and "\<not> running_at w (clock t)"
  shows "crawl_loop w opts s = (if queue s' = [] then s' else s'\<lparr>clock := Suc (clock s')\<rparr>) \<and>
         crawl_loop w opts t = (if queue t = [] then t else t\<lparr>clock := Suc (clock t)\<rparr>) \<and>
         scrape_page w opts t v = (if v |\<in>| visited_urls t then t else t\<lparr>clock := Suc (clock t)\<rparr>) \<and>
         download_file w t v d ft = (t\<lparr>clock := Suc (clock t)\<rparr>, None) \<and>
         filter is_url_open (events (fst (extract_page w opts v response t))) =
           filter is_url_open (events t) \<and>
         filter is_http_get (events (fst (extract_page w opts v response t))) =
           filter is_http_get (events t) \<and>
         \<not> running_at w (clock t + n)"
proof -
  have "crawl_loop w opts s = crawl_loop w opts s'"
    using crawl_loop_step [OF assms(1-3)] assms(4) by simp
  with crawl_loop_stopped [OF assms(5), of opts]
  have a: "crawl_loop w opts s = (if queue s' = [] then s' else s'\<lparr>clock := Suc (clock s')\<rparr>)"
    by simp
  have b: "\<not> running_at w (clock t + n)"
    using running_at_mono [of "clock t" "clock t + n" w] assms(6) by auto
  from a b crawl_loop_stopped [OF assms(6), of opts] scrape_page_stopped [OF assms(6), of opts v]
    download_file_stopped [OF assms(6), of v d ft] extract_page_stopped [OF assms(6), of opts v response]
  show ?thesis by simp
qed

theorem stop_is_cooperative_witness:
  "\<not> running_at stopped_world (clock demo_stopped) \<and>
   crawl_loop stopped_world demo_opts (demo_start\<lparr>queue := [demo_seed]\<rparr>) =
     demo_stopped\<lparr>clock := Suc (clock demo_stopped)\<rparr> \<and>
   queue demo_stopped = [''https://blog.example.com/b''] \<and>
   download_file stopped_world demo_stopped ''https://example.com/logo.png'' ''images'' Image =
     (demo_stopped\<lparr>clock := Suc (clock demo_stopped)\<rparr>, None)"
proof -
  let ?s = "demo_start\<lparr>queue := [demo_seed]\<rparr>"
  have h: "queue ?s = demo_seed # []" "running_at stopped_world (clock ?s)"
    "int (fcard (visited_urls ?s)) < max_pages demo_opts"
    by (simp_all add: demo_start_def stopped_world_def running_at_def max_pages_def
          demo_opts_def get_or_def fcard_fempty)
  have s': "demo_stopped = scrape_page stopped_world demo_opts (?s\<lparr>clock := Suc (clock ?s), queue := []\<rparr>) demo_seed"
    by (simp add: demo_stopped_def demo_start_def)
  have c: "clock demo_stopped = 3" unfolding demo_stopped_def by code_simp
  have q: "queue demo_stopped = [''https://blog.example.com/b'']" unfolding demo_stopped_def by code_simp
  have st: "\<not> running_at stopped_world (clock demo_stopped)"
    by (simp add: c running_at_def stopped_world_def)
  from stop_is_cooperative [OF h s' st st,
      where v = "''https://example.com/logo.png''" and d = "''images''" and ft = Image]
    st q
  show ?thesis by simp
qed

text \<open>
  A page whose second anchor is \<open>http://[\<close>, which \<open>urlparse\<close> rejects with
  \<open>ValueError\<close> when \<open>is_internal_link\<close> parses it.
\<close>

definition broken_link_world :: world where
  "broken_link_world = demo_world\<lparr>http_get :=
     (\<lambda>t u. Responded (html_page [''https://example.com/ok'', ''http://['', ''https://example.com/later'']))\<rparr>"


text \<open>The messages of the error signals of a trace.\<close>

fun error_signals :: "event list \<Rightarrow> string list" where
  "error_signals [] = []"
| "error_signals (Error m # es) = m # error_signals es"
| "error_signals (_ # es) = error_signals es"

text \<open>
  C7.  On that page the exception is caught by \<open>scrape_page\<close> and the error signal
  is emitted, the links found before it are kept, the page is not counted, and the
  run goes on; but the error list of the results stays empty, during the page and at
  the end of the run: the handler of \<open>scrape_page\<close> does not append to it, and the
  handler of \<open>run\<close>, which does, is never reached.
\<close>

theorem extraction_error_not_logged:
  "error_signals (events (scrape_page broken_link_world demo_opts demo_start demo_seed)) =
     [''Error scraping https://example.com: Invalid IPv6 URL''] \<and>
   errors (res (scrape_page broken_link_world demo_opts demo_start demo_seed)) = [] \<and>
   links (res (scrape_page broken_link_world demo_opts demo_start demo_seed)) =
     {''https://example.com/ok'', ''http://[''} \<and>
   visited_pages (res (scrape_page broken_link_world demo_opts demo_start demo_seed)) = 0 \<and>
   errors (res (run broken_link_world demo_opts demo_seed demo_start)) = []"
  by code_simp

text \<open>
  The classification as the specification words it: against the host of the seed.
\<close>

definition spec_internal :: "string \<Rightarrow> url \<Rightarrow> bool" where
  "spec_internal seed_host u =
     (case py_urlparse u of
        Inl e \<Rightarrow> False
      | Inr parsed \<Rightarrow> netloc parsed = seed_host \<or> suffix (''.'' @ seed_host) (netloc parsed))"

text \<open>
  C4, as stated, fails: in the crawl seeded at \<open>https://example.com\<close>, the link
  \<open>https://example.com/a\<close> found on the page \<open>https://blog.example.com/b\<close> has the
  seed's host and is classified external.
\<close>

theorem internal_by_seed_host_counterexample:
  "spec_internal ''example.com'' ''https://example.com/a'' \<and>
   ''https://example.com/a'' \<in> external_links (res (run demo_world demo_opts demo_seed demo_start)) \<and>
   ''https://example.com/a'' \<notin> internal_links (res (run demo_world demo_opts demo_seed demo_start))"
  by code_simp

lemma process_anchor_classifies:
  assumes "strip a \<noteq> []" and "\<not> prefix ''javascript:'' (strip a)" and "\<not> prefix ''#'' (strip a)"
    and "normalize_url w (strip a) base_url = Inr full_url" and "is_valid_url full_url"
    and "urlparse w full_url = Inr parsed"
    and "s' = fst (process_anchor w opts base_url base_domain s a)"
  shows "if netloc parsed = base_domain \<or> suffix (''.'' @ base_domain) (netloc parsed)
         then internal_links (res s') = insert full_url (internal_links (res s)) \<and>
              external_links (res s') = external_links (res s)
         else external_links (res s') = insert full_url (external_links (res s)) \<and>
              internal_links (res s') = internal_links (res s)"
  using assms by (simp add: process_anchor_def is_internal_link_def Let_def)

text \<open>
  Statements other than the loop over the anchors leave the link sets and the queue
  alone.
\<close>

definition same_links :: "worker \<Rightarrow> worker \<Rightarrow> bool" where
  "same_links s s' \<longleftrightarrow>
     links (res s') = links (res s) \<and>
     internal_links (res s') = internal_links (res s) \<and>
     external_links (res s') = external_links (res s) \<and>
     queue s' = queue s"

text \<open>
  What the loop over the anchors of a page with base domain \<open>d\<close> does to the link
  sets: they grow; a URL that enters \<open>internal_links\<close> has a network location equal
  to \<open>d\<close> or ending in a dot and \<open>d\<close>; a URL that enters \<open>external_links\<close> has not;
  a URL that enters \<open>links\<close> and parses is in one of the two accordingly; and a URL
  that enters \<open>links\<close> or the queue passed \<open>is_valid_url\<close>.
\<close>

definition in_domain :: "string \<Rightarrow> parse_result \<Rightarrow> bool" where
  "in_domain d parsed \<longleftrightarrow> netloc parsed = d \<or> suffix (''.'' @ d) (netloc parsed)"

definition classified :: "world \<Rightarrow> string \<Rightarrow> worker \<Rightarrow> worker \<Rightarrow> bool" where
  "classified w d s s' \<longleftrightarrow>
     links (res s) \<subseteq> links (res s') \<and>
     internal_links (res s) \<subseteq> internal_links (res s') \<and>
     external_links (res s) \<subseteq> external_links (res s') \<and>
     (\<forall>x \<in> internal_links (res s') - internal_links (res s).
        \<exists>parsed. urlparse w x = Inr parsed \<and> in_domain d parsed) \<and>
     (\<forall>x \<in> external_links (res s') - external_links (res s).
        \<exists>parsed. urlparse w x = Inr parsed \<and> \<not> in_domain d parsed) \<and>
     (\<forall>x \<in> links (res s') - links (res s). \<forall>parsed. urlparse w x = Inr parsed \<longrightarrow>
        (if in_domain d parsed then x \<in> internal_links (res s') else x \<in> external_links (res s'))) \<and>
     (\<forall>x \<in> links (res s') - links (res s) \<union> (set (queue s') - set (queue s)). is_valid_url x)"

lemma same_links_refl: "same_links s s"
  by (simp add: same_links_def)

lemma same_links_trans: "same_links a b \<Longrightarrow> same_links b c \<Longrightarrow> same_links a c"
  by (simp add: same_links_def)

lemma classified_refl: "classified w d s s"
  by (simp add: classified_def)

lemma classified_trans:
  assumes ab: "classified w d a b" and bc: "classified w d b c"
  shows "classified w d a c"
proof -
  have mono: "links (res a) \<subseteq> links (res b)" "links (res b) \<subseteq> links (res c)"
    "internal_links (res a) \<subseteq> internal_links (res b)" "internal_links (res b) \<subseteq> internal_links (res c)"
    "external_links (res a) \<subseteq> external_links (res b)" "external_links (res b) \<subseteq> external_links (res c)"
    using ab bc by (simp_all add: classified_def)
  have i: "\<exists>parsed. urlparse w x = Inr parsed \<and> in_domain d parsed"
    if "x \<in> internal_links (res c) - internal_links (res a)" for x
  proof (cases "x \<in> internal_links (res b)")
    case True
    with that have "x \<in> internal_links (res b) - internal_links (res a)" by simp
    with ab show ?thesis unfolding classified_def by blast
  next
    case False
    with that have "x \<in> internal_links (res c) - internal_links (res b)" by simp
    with bc show ?thesis unfolding classified_def by blast
  qed
  have e: "\<exists>parsed. urlparse w x = Inr parsed \<and> \<not> in_domain d parsed"
    if "x \<in> external_links (res c) - external_links (res a)" for x
  proof (cases "x \<in> external_links (res b)")
    case True
    with that have "x \<in> external_links (res b) - external_links (res a)" by simp
    with ab show ?thesis unfolding classified_def by blast
  next
    case False
    with that have "x \<in> external_links (res c) - external_links (res b)" by simp
    with bc show ?thesis unfolding classified_def by blast
  qed
  have l: "if in_domain d parsed then x \<in> internal_links (res c) else x \<in> external_links (res c)"
    if "x \<in> links (res c) - links (res a)" and "urlparse w x = Inr parsed" for x parsed
  proof (cases "x \<in> links (res b)")
    case True
    with that(1) have "x \<in> links (res b) - links (res a)" by simp
    with ab that(2)
    have "if in_domain d parsed then x \<in> internal_links (res b) else x \<in> external_links (res b)"
      unfolding classified_def by blast
    with mono(4,6) show ?thesis by (auto split: if_splits)
  next
    case False
    with that(1) have "x \<in> links (res c) - links (res b)" by simp
    with bc that(2) show ?thesis unfolding classified_def by blast
  qed
  have v: "is_valid_url x"
    if "x \<in> links (res c) - links (res a) \<union> (set (queue c) - set (queue a))" for x
  proof (cases "x \<in> links (res b) - links (res a) \<union> (set (queue b) - set (queue a))")
    case True
    with ab show ?thesis unfolding classified_def by blast
  next
    case False
    with that have "x \<in> links (res c) - links (res b) \<union> (set (queue c) - set (queue b))" by auto
    with bc show ?thesis unfolding classified_def by blast
  qed
  from mono i e l v show ?thesis unfolding classified_def by blast
qed

lemma same_links_classified: "same_links s s' \<Longrightarrow> classified w d s s'"
  by (simp add: same_links_def classified_def)

lemma and_then_same_links:
  assumes "and_then x g = (s', v)"
    and "\<And>s1 v1. x = (s1, v1) \<Longrightarrow> same_links s s1"
    and "\<And>s1 s2 v2. g s1 = (s2, v2) \<Longrightarrow> same_links s1 s2"
  shows "same_links s s'"
  using same_links_trans assms by (rule and_then_rel [where R = same_links])

lemma for_each_same_links:
  assumes "\<And>s x s' r. f s x = (s', r) \<Longrightarrow> same_links s s'"
  shows "for_each f s xs = (s', r) \<Longrightarrow> same_links s s'"
  using same_links_refl same_links_trans assms by (rule for_each_rel [where R = same_links])

lemma download_body_same_links: "download_body w s u d ft = (s', r) \<Longrightarrow> same_links s s'"
  by (auto simp: download_body_def same_links_def Let_def
           split: sum.splits transfer.splits option.splits)

lemma download_file_same_links: "download_file w s u d ft = (s', r) \<Longrightarrow> same_links s s'"
  by (auto simp: download_file_def read_running_def emit_def same_links_def
           split: sum.splits prod.splits if_splits dest!: download_body_same_links)

lemma process_img_same_links: "process_img w opts b s a = (s', r) \<Longrightarrow> same_links s s'"
  by (auto simp: process_img_def same_links_def Let_def
           split: sum.splits option.splits prod.splits if_splits dest!: download_file_same_links)

lemma process_script_same_links: "process_script w opts b s a = (s', r) \<Longrightarrow> same_links s s'"
  by (auto simp: process_script_def same_links_def Let_def
           split: sum.splits option.splits prod.splits if_splits dest!: download_file_same_links)

lemma process_stylesheet_same_links:
  "process_stylesheet w opts b s a = (s', r) \<Longrightarrow> same_links s s'"
  by (auto simp: process_stylesheet_def same_links_def Let_def
           split: sum.splits option.splits prod.splits if_splits dest!: download_file_same_links)

lemma extract_images_step_same_links:
  "extract_images_step w opts b doc s = (s', r) \<Longrightarrow> same_links s s'"
  by (auto simp: extract_images_step_def same_links_refl split: if_splits
           elim: for_each_same_links [rotated] process_img_same_links)

lemma extract_text_step_same_links: "extract_text_step opts u doc s = (s', r) \<Longrightarrow> same_links s s'"
  by (auto simp: extract_text_step_def same_links_def split: if_splits)

lemma extract_contacts_step_same_links:
  "extract_contacts_step opts doc s = (s', r) \<Longrightarrow> same_links s s'"
  by (auto simp: extract_contacts_step_def same_links_def split: if_splits)

lemma extract_meta_step_same_links: "extract_meta_step opts u doc s = (s', r) \<Longrightarrow> same_links s s'"
  by (auto simp: extract_meta_step_def same_links_def split: if_splits)

lemma extract_forms_step_same_links: "extract_forms_step opts u doc s = (s', r) \<Longrightarrow> same_links s s'"
  by (auto simp: extract_forms_step_def same_links_def split: if_splits)

lemma extract_resources_step_same_links:
  assumes "extract_resources_step w opts b doc s = (s', r)"
  shows "same_links s s'"
proof (cases "get_or (opt_extract_resources opts) True")
  case False
  with assms show ?thesis by (simp add: extract_resources_step_def same_links_refl)
next
  case True
  with assms
  have "and_then (for_each (process_script w opts b) s (script_srcs doc))
          (\<lambda>s1. for_each (process_stylesheet w opts b) s1 (stylesheet_hrefs doc)) = (s', r)"
    by (simp add: extract_resources_step_def)
  then show ?thesis
    apply (rule and_then_same_links)
     apply (erule for_each_same_links [rotated], erule process_script_same_links)
    apply (erule for_each_same_links [rotated], erule process_stylesheet_same_links)
    done
qed

lemma finish_page_same_links: "finish_page opts s = (s', r) \<Longrightarrow> same_links s s'"
  by (auto simp: finish_page_def same_links_def emit_def Let_def split: if_splits)

lemma save_html_same_links: "save_html w opts u response s = (s', r) \<Longrightarrow> same_links s s'"
  by (auto simp: save_html_def same_links_def Let_def split: option.splits if_splits)

text \<open>The four outcomes of the body of the loop over the anchors.\<close>

lemma process_anchor_cases:
  assumes "process_anchor w opts b d s a = (s', r)"
  shows "same_links s s' \<or>
    (\<exists>full. normalize_url w (strip a) b = Inr full \<and> is_valid_url full \<and>
       links (res s') = insert full (links (res s)) \<and>
       ((\<exists>e. urlparse w full = Inl e) \<and> internal_links (res s') = internal_links (res s) \<and>
          external_links (res s') = external_links (res s) \<and> queue s' = queue s \<or>
        (\<exists>parsed. urlparse w full = Inr parsed \<and> in_domain d parsed) \<and>
          internal_links (res s') = insert full (internal_links (res s)) \<and>
          external_links (res s') = external_links (res s) \<and>
          (queue s' = queue s \<or> queue s' = queue s @ [full]) \<or>
        (\<exists>parsed. urlparse w full = Inr parsed \<and> \<not> in_domain d parsed) \<and>
          external_links (res s') = insert full (external_links (res s)) \<and>
          internal_links (res s') = internal_links (res s) \<and> queue s' = queue s))"
proof (cases "strip a = [] \<or> prefix ''javascript:'' (strip a) \<or> prefix ''#'' (strip a)")
  case True
  with assms have "s' = s" by (auto simp: process_anchor_def Let_def)
  then show ?thesis by (simp add: same_links_refl)
next
  case skip: False
  show ?thesis
  proof (cases "normalize_url w (strip a) b")
    case (Inl e)
    with assms skip have "s' = s" by (auto simp: process_anchor_def Let_def)
    then show ?thesis by (simp add: same_links_refl)
  next
    case norm: (Inr full)
    show ?thesis
    proof (cases "is_valid_url full")
      case False
      with assms skip norm have "s' = s" by (auto simp: process_anchor_def Let_def)
      then show ?thesis by (simp add: same_links_refl)
    next
      case valid: True
      show ?thesis
      proof (cases "urlparse w full")
        case (Inl e)
        with assms skip norm valid
        have "links (res s') = insert full (links (res s))"
          "internal_links (res s') = internal_links (res s)"
          "external_links (res s') = external_links (res s)" "queue s' = queue s"
          by (auto simp: process_anchor_def is_internal_link_def Let_def)
        with norm valid Inl show ?thesis by auto
      next
        case parsed: (Inr parsed)
        show ?thesis
        proof (cases "in_domain d parsed")
          case True
          with assms skip norm valid parsed
          have "links (res s') = insert full (links (res s))"
            "internal_links (res s') = insert full (internal_links (res s))"
            "external_links (res s') = external_links (res s)"
            "queue s' = queue s \<or> queue s' = queue s @ [full]"
            by (auto simp: process_anchor_def is_internal_link_def in_domain_def Let_def
                     split: if_splits)
          with norm valid parsed True show ?thesis by auto
        next
          case False
          with assms skip norm valid parsed
          have "links (res s') = insert full (links (res s))"
            "external_links (res s') = insert full (external_links (res s))"
            "internal_links (res s') = internal_links (res s)" "queue s' = queue s"
            by (auto simp: process_anchor_def is_internal_link_def in_domain_def Let_def)
          with norm valid parsed False show ?thesis by auto
        qed
      qed
    qed
  qed
qed

lemma process_anchor_classified:
  assumes "process_anchor w opts b d s a = (s', r)"
  shows "classified w d s s'"
  using process_anchor_cases [OF assms]
proof (elim disjE exE conjE)
  assume "same_links s s'"
  then show ?thesis by (rule same_links_classified)
next
  fix full e
  assume "is_valid_url full" "links (res s') = insert full (links (res s))"
    "urlparse w full = Inl e" "internal_links (res s') = internal_links (res s)"
    "external_links (res s') = external_links (res s)" "queue s' = queue s"
  then show ?thesis by (auto simp: classified_def)
next
  fix full parsed
  assume "is_valid_url full" "links (res s') = insert full (links (res s))"
    "urlparse w full = Inr parsed" "in_domain d parsed"
    "internal_links (res s') = insert full (internal_links (res s))"
    "external_links (res s') = external_links (res s)"
    "queue s' = queue s"
  then show ?thesis by (auto simp: classified_def)
next
  fix full parsed
  assume "is_valid_url full" "links (res s') = insert full (links (res s))"
    "urlparse w full = Inr parsed" "in_domain d parsed"
    "internal_links (res s') = insert full (internal_links (res s))"
    "external_links (res s') = external_links (res s)"
    "queue s' = queue s @ [full]"
  then show ?thesis by (auto simp: classified_def)
next
  fix full parsed
  assume "is_valid_url full" "links (res s') = insert full (links (res s))"
    "urlparse w full = Inr parsed" "\<not> in_domain d parsed"
    "external_links (res s') = insert full (external_links (res s))"
    "internal_links (res s') = internal_links (res s)" "queue s' = queue s"
  then show ?thesis by (auto simp: classified_def)
qed


lemma extract_links_step_classified:
  "extract_links_step w opts b d doc s = (s', r) \<Longrightarrow> classified w d s s'"
proof -
  have "\<And>xs. for_each (process_anchor w opts b d) s xs = (s', r) \<Longrightarrow> classified w d s s'"
    using classified_refl classified_trans process_anchor_classified
    by (rule for_each_rel [where R = "classified w d"])
  then show "extract_links_step w opts b d doc s = (s', r) \<Longrightarrow> classified w d s s'"
    by (auto simp: extract_links_step_def classified_refl split: if_splits)
qed

text \<open>
  \<open>base_url\<close> and \<open>base_domain\<close> as \<open>scrape_page\<close> computes them from the URL of the
  page: \<open>base_url = self.extract_base_url(url)\<close> and
  \<open>base_domain = urlparse(base_url).netloc\<close>.
\<close>

definition page_base :: "world \<Rightarrow> url \<Rightarrow> (string \<times> string) option" where
  "page_base w u =
     (case extract_base_url w u of
        Inl e \<Rightarrow> None
      | Inr base_url \<Rightarrow>
          (case urlparse w base_url of
             Inl e \<Rightarrow> None
           | Inr parsed_base \<Rightarrow> Some (base_url, netloc parsed_base)))"

lemma extract_page_no_base:
  "page_base w page = None \<Longrightarrow> extract_page w opts page response s = (s', r) \<Longrightarrow> s' = s"
  by (auto simp: page_base_def extract_page_def split: sum.splits)


text \<open>The steps of \<open>extract_page\<close> after the loop over the anchors.\<close>

lemma extract_page_links:
  assumes "extract_page w opts page response s = (s', r)"
    and "page_base w page = Some (base_url, base_domain)"
  shows "\<exists>s1 r1. extract_links_step w opts base_url base_domain (soup response) s = (s1, r1) \<and>
           same_links s1 s' \<and> (r = Inr () \<longrightarrow> r1 = Inr ())"
proof -
  obtain s1 r1 where l: "extract_links_step w opts base_url base_domain (soup response) s = (s1, r1)"
    by (cases "extract_links_step w opts base_url base_domain (soup response) s")
  note steps = extract_images_step_same_links extract_text_step_same_links
      extract_contacts_step_same_links extract_meta_step_same_links extract_forms_step_same_links
      extract_resources_step_same_links finish_page_same_links
  from assms(2) obtain parsed_base where base: "extract_base_url w page = Inr base_url"
      "urlparse w base_url = Inr parsed_base" "base_domain = netloc parsed_base"
    by (auto simp: page_base_def split: sum.splits)
  show ?thesis
  proof (cases r1)
    case (Inl e)
    with assms(1) l base have "s' = s1" "r = Inl e"
      by (simp_all add: extract_page_def Let_def and_then_Inl)
    with l Inl show ?thesis by (auto simp: same_links_refl)
  next
    case (Inr u)
    with assms(1) l base have "same_links s1 s'"
      apply (simp add: extract_page_def Let_def and_then_Inr)
      apply (elim and_then_same_links)
      apply (erule steps)+
      done
    with l Inr show ?thesis by auto
  qed
qed

lemma extract_page_classified:
  assumes "extract_page w opts page response s = (s', r)"
    and "page_base w page = Some (base_url, base_domain)"
  shows "classified w base_domain s s'"
proof -
  from extract_page_links [OF assms] obtain s1 r1 where
    "extract_links_step w opts base_url base_domain (soup response) s = (s1, r1)"
    "same_links s1 s'" by blast
  then show ?thesis
    by (blast intro: classified_trans extract_links_step_classified same_links_classified)
qed

lemma retry_loop_same_links:
  assumes "retry_loop w u s n = (s', r)"
  shows "same_links s s'"
proof -
  from retry_loop_keeps [OF assms]
  have q: "queue s' = queue s" and k: "res s' = (res s)\<lparr>errors := errors (res s')\<rparr>"
    by simp_all
  from arg_cong [OF k, of links] arg_cong [OF k, of internal_links]
    arg_cong [OF k, of external_links] q
  show ?thesis by (simp add: same_links_def)
qed

text \<open>
  A transitive relation that holds across every step that leaves the link sets and
  the queue alone, and across \<open>extract_page\<close> on this page, holds across
  \<open>scrape_page\<close>.
\<close>

lemma scrape_body_lift:
  assumes tr: "\<And>a b c. R a b \<Longrightarrow> R b c \<Longrightarrow> R a c"
    and sl: "\<And>a b. same_links a b \<Longrightarrow> R a b"
    and ex: "\<And>response t t' r. extract_page w opts page response t = (t', r) \<Longrightarrow> R t t'"
    and body: "scrape_body w opts page s = (s', r)"
  shows "R s s'"
proof -
  obtain s1 f where fetch: "retry_loop w page s 0 = (s1, f)"
    by (cases "retry_loop w page s 0")
  have r1: "R s s1" using retry_loop_same_links [OF fetch] by (rule sl)
  show ?thesis
  proof (cases f)
    case (Got response)
    let ?s2 = "s1\<lparr>res := (res s1)\<lparr>total_data_size :=
                   total_data_size (res s1) + length (content response)\<rparr>\<rparr>"
    have r2: "R s1 ?s2" by (rule sl) (simp add: same_links_def)
    from body fetch Got scrape_body_got [of w page s s1 response opts]
    have at: "and_then (save_html w opts page response ?s2)
                (\<lambda>s3. if \<not> prefix ''text/html'' (content_type response) then (s3, Inr ())
                      else extract_page w opts page response s3) = (s', r)"
      by simp
    have "R ?s2 s'"
      using tr at
    proof (rule and_then_rel [where R = R and s = "?s2"])
      fix s3 v3 assume "save_html w opts page response ?s2 = (s3, v3)"
      then show "R ?s2 s3" by (rule sl [OF save_html_same_links])
    next
      fix s3 s4 v4
      assume "(if \<not> prefix ''text/html'' (content_type response) then (s3, Inr ())
               else extract_page w opts page response s3) = (s4, v4)"
      then show "R s3 s4"
        by (auto split: if_splits intro: ex sl [OF same_links_refl])
    qed
    with r1 r2 show ?thesis by (blast intro: tr)
  next
    case GaveUp
    with body fetch r1 show ?thesis by (simp add: scrape_body_def)
  next
    case NoResponse
    with body fetch r1 show ?thesis by (simp add: scrape_body_def)
  next
    case (Crashed e)
    with body fetch r1 show ?thesis by (simp add: scrape_body_def)
  qed
qed

lemma scrape_page_lift:
  assumes tr: "\<And>a b c. R a b \<Longrightarrow> R b c \<Longrightarrow> R a c"
    and sl: "\<And>a b. same_links a b \<Longrightarrow> R a b"
    and ex: "\<And>response t t' r. extract_page w opts page response t = (t', r) \<Longrightarrow> R t t'"
  shows "R s (scrape_page w opts s page)"
proof (cases "proceeds w s page")
  case False
  show ?thesis
    by (rule sl) (simp add: scrape_page_skip [OF False] same_links_def)
next
  case True
  let ?s1 = "mark_visited page (s\<lparr>clock := Suc (clock s)\<rparr>)"
  obtain s2 r where body: "scrape_body w opts page ?s1 = (s2, r)"
    by (cases "scrape_body w opts page ?s1")
  have a: "R s ?s1" by (rule sl) (simp add: same_links_def mark_visited_def emit_def)
  have b: "R ?s1 s2" using tr sl ex body by (rule scrape_body_lift)
  from True have p: "page |\<notin>| visited_urls s" "running_at w (clock s)"
    by (simp_all add: proceeds_def)
  have c: "R s2 (scrape_page w opts s page)"
    by (rule sl) (simp add: scrape_page_proceeds [OF p] body same_links_def emit_def split: sum.splits)
  from a b c show ?thesis by (blast intro: tr)
qed

lemma scrape_page_classified:
  assumes "page_base w page = Some (base_url, base_domain)"
  shows "classified w base_domain s (scrape_page w opts s page)"
proof (rule scrape_page_lift)
  fix a b c assume "classified w base_domain a b" "classified w base_domain b c"
  then show "classified w base_domain a c" by (rule classified_trans)
next
  fix a b assume "same_links a b" then show "classified w base_domain a b"
    by (rule same_links_classified)
next
  fix response t t' r assume "extract_page w opts page response t = (t', r)"
  then show "classified w base_domain t t'" using assms by (rule extract_page_classified)
qed

lemma scrape_page_no_base:
  assumes "page_base w page = None"
  shows "same_links s (scrape_page w opts s page)"
proof (rule scrape_page_lift)
  fix a b c assume "same_links a b" "same_links b c"
  then show "same_links a c" by (rule same_links_trans)
next
  fix a b assume "same_links a b" then show "same_links a b" .
next
  fix response t t' r assume "extract_page w opts page response t = (t', r)"
  with assms have "t' = t" by (rule extract_page_no_base)
  then show "same_links t t'" by (simp add: same_links_refl)
qed

text \<open>An anchor that is kept, when the body of the loop raises nothing.\<close>

lemma process_anchor_kept:
  assumes "process_anchor w opts b d s a = (s', Inr ())"
    and "strip a \<noteq> []" and "\<not> prefix ''javascript:'' (strip a)" and "\<not> prefix ''#'' (strip a)"
    and "normalize_url w (strip a) b = Inr full" and "is_valid_url full"
  shows "full \<in> links (res s') \<and>
         (\<exists>parsed. urlparse w full = Inr parsed \<and>
            (if in_domain d parsed then full \<in> internal_links (res s')
             else full \<in> external_links (res s')))"
proof (cases "urlparse w full")
  case (Inl e)
  with assms show ?thesis by (simp add: process_anchor_def is_internal_link_def Let_def)
next
  case (Inr parsed)
  with assms show ?thesis
    by (cases "in_domain d parsed")
       (auto simp: process_anchor_def is_internal_link_def in_domain_def Let_def split: if_splits)
qed

lemma for_each_anchor_kept:
  assumes "for_each (process_anchor w opts b d) s xs = (s', Inr ())" and "a \<in> set xs"
    and "strip a \<noteq> []" and "\<not> prefix ''javascript:'' (strip a)" and "\<not> prefix ''#'' (strip a)"
    and "normalize_url w (strip a) b = Inr full" and "is_valid_url full"
  shows "full \<in> links (res s') \<and>
         (\<exists>parsed. urlparse w full = Inr parsed \<and>
            (if in_domain d parsed then full \<in> internal_links (res s')
             else full \<in> external_links (res s')))"
  using assms(1,2)
proof (induction xs arbitrary: s)
  case Nil
  then show ?case by simp
next
  case (Cons x xs)
  obtain s1 r1 where step: "process_anchor w opts b d s x = (s1, r1)"
    by (cases "process_anchor w opts b d s x")
  with Cons.prems(1) have r1: "r1 = Inr ()"
    and rest: "for_each (process_anchor w opts b d) s1 xs = (s', Inr ())"
    by (auto split: sum.splits)
  show ?case
  proof (cases "a \<in> set xs")
    case True
    with rest show ?thesis by (rule Cons.IH)
  next
    case False
    with Cons.prems(2) have "a = x" by simp
    with step r1 have "process_anchor w opts b d s a = (s1, Inr ())" by simp
    from process_anchor_kept [OF this assms(3-7)] obtain parsed where
      k: "full \<in> links (res s1)" "urlparse w full = Inr parsed"
        "if in_domain d parsed then full \<in> internal_links (res s1)
         else full \<in> external_links (res s1)"
      by blast
    have "classified w d s1 s'"
      using classified_refl classified_trans process_anchor_classified rest
      by (rule for_each_rel [where R = "classified w d"])
    then have "links (res s1) \<subseteq> links (res s')"
      "internal_links (res s1) \<subseteq> internal_links (res s')"
      "external_links (res s1) \<subseteq> external_links (res s')"
      by (simp_all add: classified_def)
    with k show ?thesis by (auto split: if_splits)
  qed
qed

lemma extract_page_anchor_kept:
  assumes "extract_page w opts page response s = (s', Inr ())"
    and "page_base w page = Some (base_url, base_domain)"
    and "get_or (opt_extract_links opts) True"
    and "a \<in> set (anchors (soup response))"
    and "strip a \<noteq> []" and "\<not> prefix ''javascript:'' (strip a)" and "\<not> prefix ''#'' (strip a)"
    and "normalize_url w (strip a) base_url = Inr full" and "is_valid_url full"
  shows "full \<in> links (res s') \<and>
         (\<exists>parsed. urlparse w full = Inr parsed \<and>
            (if in_domain base_domain parsed then full \<in> internal_links (res s')
             else full \<in> external_links (res s')))"
proof -
  from extract_page_links [OF assms(1,2)] obtain s1 where
    l: "extract_links_step w opts base_url base_domain (soup response) s = (s1, Inr ())"
    and same: "same_links s1 s'" by blast
  from l assms(3)
  have "for_each (process_anchor w opts base_url base_domain) s (anchors (soup response)) = (s1, Inr ())"
    by (simp add: extract_links_step_def)
  note kept = for_each_anchor_kept [OF this assms(4-9)]
  from same have eqs: "links (res s') = links (res s1)"
    "internal_links (res s') = internal_links (res s1)"
    "external_links (res s') = external_links (res s1)"
    by (simp_all add: same_links_def)
  from kept show ?thesis by (simp only: eqs)
qed

definition demo_blog :: url where
  "demo_blog = ''https://blog.example.com/b''"

text \<open>
  C4, amended.  Links are classified against the page they are found on, not against
  the seed.  Let \<open>base_url\<close> and \<open>base_domain\<close> be what \<open>scrape_page\<close> computes from
  the URL of the page.  Across \<open>scrape_page\<close> on that page, from any state: a URL
  that enters \<open>internal_links\<close> has a network location equal to \<open>base_domain\<close> or
  ending in a dot followed by \<open>base_domain\<close>; a URL that enters \<open>external_links\<close>
  has not; a URL that enters \<open>links\<close> and parses is in the one of the two sets that
  this test selects.  When the extraction of the page raises nothing and the
  extraction of links is on, every anchor of the page that is not skipped, whose URL
  normalises and passes the validity test, is in \<open>links\<close> and, by the same test, in
  \<open>internal_links\<close> or in \<open>external_links\<close>.  When the URL of the page does not
  parse, the page leaves the link sets and the queue alone.  On a page of
  \<open>example.com\<close> the three URLs of the specification classify as it says.
\<close>

theorem link_classified_against_page_domain:
  "(page_base w page = None \<longrightarrow> same_links s (scrape_page w opts s page)) \<and>
   (page_base w page = Some (base_url, base_domain) \<longrightarrow>
      classified w base_domain s (scrape_page w opts s page) \<and>
      (extract_page w opts page response t = (t', Inr ()) \<and>
       get_or (opt_extract_links opts) True \<and> a \<in> set (anchors (soup response)) \<and>
       strip a \<noteq> [] \<and> \<not> prefix ''javascript:'' (strip a) \<and> \<not> prefix ''#'' (strip a) \<and>
       normalize_url w (strip a) base_url = Inr full_url \<and> is_valid_url full_url \<longrightarrow>
         full_url \<in> links (res t') \<and>
         (\<exists>parsed. urlparse w full_url = Inr parsed \<and>
            (if in_domain base_domain parsed then full_url \<in> internal_links (res t')
             else full_url \<in> external_links (res t'))))) \<and>
   page_base demo_world ''https://example.com'' = Some (''https://example.com'', ''example.com'') \<and>
   is_internal_link demo_world ''https://example.com/a'' ''example.com'' = Inr True \<and>
   is_internal_link demo_world ''https://blog.example.com/b'' ''example.com'' = Inr True \<and>
   is_internal_link demo_world ''https://other.com'' ''example.com'' = Inr False"
proof -
  have "page_base demo_world ''https://example.com'' = Some (''https://example.com'', ''example.com'')"
    and "is_internal_link demo_world ''https://example.com/a'' ''example.com'' = Inr True"
    and "is_internal_link demo_world ''https://blog.example.com/b'' ''example.com'' = Inr True"
    and "is_internal_link demo_world ''https://other.com'' ''example.com'' = Inr False"
    by code_simp+
  moreover have "page_base w page = None \<longrightarrow> same_links s (scrape_page w opts s page)"
    by (simp add: scrape_page_no_base)
  moreover have "page_base w page = Some (base_url, base_domain) \<longrightarrow>
      classified w base_domain s (scrape_page w opts s page)"
    by (simp add: scrape_page_classified)
  moreover have "page_base w page = Some (base_url, base_domain) \<longrightarrow>
      (extract_page w opts page response t = (t', Inr ()) \<and>
       get_or (opt_extract_links opts) True \<and> a \<in> set (anchors (soup response)) \<and>
       strip a \<noteq> [] \<and> \<not> prefix ''javascript:'' (strip a) \<and> \<not> prefix ''#'' (strip a) \<and>
       normalize_url w (strip a) base_url = Inr full_url \<and> is_valid_url full_url \<longrightarrow>
         full_url \<in> links (res t') \<and>
         (\<exists>parsed. urlparse w full_url = Inr parsed \<and>
            (if in_domain base_domain parsed then full_url \<in> internal_links (res t')
             else full_url \<in> external_links (res t'))))"
    using extract_page_anchor_kept [of w opts page response t t' base_url base_domain a full_url]
    by blast
  ultimately show ?thesis by blast
qed

theorem link_classified_against_page_domain_witness:
  "page_base demo_world demo_blog = Some (''https://blog.example.com'', ''blog.example.com'') \<and>
   ''https://example.com/a'' \<in> external_links (res (scrape_page demo_world demo_opts demo_first demo_blog)) -
       external_links (res demo_first) \<and>
   (\<exists>parsed. urlparse demo_world ''https://example.com/a'' = Inr parsed \<and>
       \<not> in_domain ''blog.example.com'' parsed) \<and>
   ''https://example.com/a'' \<in> external_links
       (res (fst (extract_page demo_world demo_opts demo_blog (html_page ['' https://example.com/a ''])
          demo_start)))"
proof -
  have base: "page_base demo_world demo_blog = Some (''https://blog.example.com'', ''blog.example.com'')"
    by code_simp
  have new: "''https://example.com/a'' \<in>
      external_links (res (scrape_page demo_world demo_opts demo_first demo_blog)) -
       external_links (res demo_first)"
    by code_simp
  note inst = link_classified_against_page_domain [of demo_world demo_blog demo_first demo_opts
      "''https://blog.example.com''" "''blog.example.com''"
      "html_page ['' https://example.com/a '']" demo_start
      "fst (extract_page demo_world demo_opts demo_blog (html_page ['' https://example.com/a ''])
          demo_start)" "'' https://example.com/a ''" "''https://example.com/a''"]
  from inst base have c: "classified demo_world ''blog.example.com'' demo_first
      (scrape_page demo_world demo_opts demo_first demo_blog)"
    by blast
  with new have ex: "\<exists>parsed. urlparse demo_world ''https://example.com/a'' = Inr parsed \<and>
       \<not> in_domain ''blog.example.com'' parsed"
    unfolding classified_def by blast
  have run: "extract_page demo_world demo_opts demo_blog (html_page ['' https://example.com/a ''])
          demo_start =
       (fst (extract_page demo_world demo_opts demo_blog (html_page ['' https://example.com/a ''])
          demo_start), Inr ())"
    by (simp add: prod_eq_iff) code_simp
  have h: "get_or (opt_extract_links demo_opts) True"
    "'' https://example.com/a '' \<in> set (anchors (soup (html_page ['' https://example.com/a ''])))"
    "strip '' https://example.com/a '' \<noteq> []"
    "\<not> prefix ''javascript:'' (strip '' https://example.com/a '')"
    "\<not> prefix ''#'' (strip '' https://example.com/a '')"
    "normalize_url demo_world (strip '' https://example.com/a '') ''https://blog.example.com'' =
       Inr ''https://example.com/a''"
    "is_valid_url ''https://example.com/a''"
    by code_simp+
  from inst base run h obtain parsed where
    p: "urlparse demo_world ''https://example.com/a'' = Inr parsed"
      "if in_domain ''blog.example.com'' parsed
       then ''https://example.com/a'' \<in> internal_links
         (res (fst (extract_page demo_world demo_opts demo_blog (html_page ['' https://example.com/a ''])
            demo_start)))
       else ''https://example.com/a'' \<in> external_links
         (res (fst (extract_page demo_world demo_opts demo_blog (html_page ['' https://example.com/a ''])
            demo_start)))"
    by blast
  with ex have "''https://example.com/a'' \<in> external_links
       (res (fst (extract_page demo_world demo_opts demo_blog (html_page ['' https://example.com/a ''])
          demo_start)))"
    by (auto split: if_splits)
  with base new ex show ?thesis by blast
qed

text \<open>
  The validity test as the specification words it: on the scheme and on the path of
  the parsed URL.
\<close>

definition spec_dropped :: "url \<Rightarrow> bool" where
  "spec_dropped u =
     (case py_urlparse u of
        Inl e \<Rightarrow> True
      | Inr parsed \<Rightarrow>
          scheme parsed \<notin> set [''http'', ''https''] \<or>
          list_ex (\<lambda>ext. suffix ext (lower (path parsed))) unwanted_exts)"

text \<open>
  C5, as stated, fails: a URL whose query ends in \<open>.pdf\<close> is dropped though its path
  has no excluded extension, and a URL whose path ends in \<open>.pdf\<close> is kept when a
  query follows.
\<close>

theorem dropped_by_path_extension_counterexample:
  "\<not> is_valid_url ''http://example.com/a?f=b.pdf'' \<and>
   \<not> spec_dropped ''http://example.com/a?f=b.pdf'' \<and>
   is_valid_url ''http://example.com/x.pdf?dl=1'' \<and>
   spec_dropped ''http://example.com/x.pdf?dl=1''"
  by code_simp

lemma is_valid_url_iff:
  "is_valid_url x \<longleftrightarrow>
     (prefix ''http://'' x \<or> prefix ''https://'' x) \<and>
     \<not> list_ex (\<lambda>ext. suffix ext (lower x)) unwanted_exts"
  by (simp add: is_valid_url_def)

lemma process_anchor_accepts_valid:
  assumes "process_anchor w opts base_url base_domain s a = (s', r)"
    and "x \<in> links (res s') - links (res s) \<union> (internal_links (res s') - internal_links (res s)) \<union>
             (external_links (res s') - external_links (res s)) \<union> (set (queue s') - set (queue s))"
  shows "is_valid_url x"
  using assms
  by (auto simp: process_anchor_def Let_def split: sum.splits bool.splits if_splits)

lemma process_anchor_drops_invalid:
  assumes "normalize_url w (strip a) base_url = Inr full_url" and "\<not> is_valid_url full_url"
  shows "process_anchor w opts base_url base_domain s a = (s, Inr ())"
  using assms by (simp add: process_anchor_def Let_def)


text \<open>What the body of the loop does with a link that passes the validity test.\<close>

lemma process_anchor_keeps_valid:
  assumes "process_anchor w opts base_url base_domain s a = (s', r)"
    and "strip a \<noteq> []" and "\<not> prefix ''javascript:'' (strip a)" and "\<not> prefix ''#'' (strip a)"
    and "normalize_url w (strip a) base_url = Inr full_url" and "is_valid_url full_url"
  shows "full_url \<in> links (res s') \<and>
         queue s' =
           (if is_internal_link w full_url base_domain = Inr True \<and>
               get_or (opt_crawl_pages opts) False \<and>
               int (fcard (visited_urls s)) < max_pages opts \<and>
               full_url |\<notin>| visited_urls s \<and> full_url \<notin> set (queue s)
            then queue s @ [full_url] else queue s)"
proof (cases "is_internal_link w full_url base_domain")
  case (Inl e)
  with assms show ?thesis by (auto simp: process_anchor_def Let_def)
next
  case (Inr internal)
  with assms show ?thesis
    by (cases internal) (auto simp: process_anchor_def Let_def split: if_splits)
qed

text \<open>The URLs that a statement adds to a link set or to the queue.\<close>

definition accepted :: "worker \<Rightarrow> worker \<Rightarrow> url set" where
  "accepted s s' =
     (links (res s') - links (res s)) \<union> (internal_links (res s') - internal_links (res s)) \<union>
     (external_links (res s') - external_links (res s)) \<union> (set (queue s') - set (queue s))"

definition accepts_valid :: "worker \<Rightarrow> worker \<Rightarrow> bool" where
  "accepts_valid s s' \<longleftrightarrow> (\<forall>x \<in> accepted s s'. is_valid_url x)"

lemma accepts_valid_trans: "accepts_valid a b \<Longrightarrow> accepts_valid b c \<Longrightarrow> accepts_valid a c"
  unfolding accepts_valid_def accepted_def by blast

lemma same_links_accepts_valid: "same_links a b \<Longrightarrow> accepts_valid a b"
  by (simp add: accepts_valid_def accepted_def same_links_def)

lemma process_anchor_accepts_valid':
  "process_anchor w opts b d s a = (s', r) \<Longrightarrow> accepts_valid s s'"
  unfolding accepts_valid_def accepted_def
  using process_anchor_accepts_valid [of w opts b d s a s' r] by blast

lemma extract_page_accepts_valid:
  assumes "extract_page w opts page response s = (s', r)"
  shows "accepts_valid s s'"
proof (cases "page_base w page")
  case None
  from extract_page_no_base [OF this assms] show ?thesis
    by (simp add: accepts_valid_def accepted_def)
next
  case (Some bd)
  obtain b d where bd: "bd = (b, d)" by (cases bd)
  from extract_page_links [OF assms Some [unfolded bd]] obtain s1 r1 where
    l: "extract_links_step w opts b d (soup response) s = (s1, r1)" and same: "same_links s1 s'"
    by blast
  have "\<And>xs. for_each (process_anchor w opts b d) s xs = (s1, r1) \<Longrightarrow> accepts_valid s s1"
    using same_links_accepts_valid [OF same_links_refl] accepts_valid_trans
      process_anchor_accepts_valid'
    by (rule for_each_rel [where R = accepts_valid])
  with l have "accepts_valid s s1"
    by (auto simp: extract_links_step_def same_links_accepts_valid [OF same_links_refl]
             split: if_splits)
  with same show ?thesis by (blast intro: accepts_valid_trans same_links_accepts_valid)
qed

lemma scrape_page_accepts_valid: "accepts_valid s (scrape_page w opts s page)"
proof (rule scrape_page_lift)
  fix a b c assume "accepts_valid a b" "accepts_valid b c"
  then show "accepts_valid a c" by (rule accepts_valid_trans)
next
  fix a b assume "same_links a b" then show "accepts_valid a b"
    by (rule same_links_accepts_valid)
next
  fix response t t' r assume "extract_page w opts page response t = (t', r)"
  then show "accepts_valid t t'" by (rule extract_page_accepts_valid)
qed

text \<open>
  C5, amended.  Every URL that the loop over the anchors adds to a link set or to the
  queue starts with \<open>http://\<close> or \<open>https://\<close> and its lower-cased text does not end
  in an excluded extension; a normalised link that fails this test on its whole text
  is dropped: the state is unchanged and nothing is raised.  A link that is not
  skipped, normalises and passes this test is not dropped: it is added to \<open>links\<close>,
  and it is appended to the queue exactly when it is internal, \<open>crawl_pages\<close> is on,
  the page limit is not reached, and it is neither visited nor queued.  The same
  holds of a whole page: every URL that \<open>scrape_page\<close> adds to a link set or to the
  queue passes the test.
\<close>

theorem only_valid_urls_are_kept:
  assumes "process_anchor w opts base_url base_domain s a = (s', r)"
  shows "(x \<in> links (res s') - links (res s) \<union> (internal_links (res s') - internal_links (res s)) \<union>
               (external_links (res s') - external_links (res s)) \<union> (set (queue s') - set (queue s)) \<longrightarrow>
            (prefix ''http://'' x \<or> prefix ''https://'' x) \<and>
            \<not> list_ex (\<lambda>ext. suffix ext (lower x)) unwanted_exts) \<and>
         (normalize_url w (strip a) base_url = Inr full_url \<and>
            (\<not> (prefix ''http://'' full_url \<or> prefix ''https://'' full_url) \<or>
             list_ex (\<lambda>ext. suffix ext (lower full_url)) unwanted_exts) \<longrightarrow>
            s' = s \<and> r = Inr ()) \<and>
         (strip a \<noteq> [] \<and> \<not> prefix ''javascript:'' (strip a) \<and> \<not> prefix ''#'' (strip a) \<and>
          normalize_url w (strip a) base_url = Inr full_url \<and>
          (prefix ''http://'' full_url \<or> prefix ''https://'' full_url) \<and>
          \<not> list_ex (\<lambda>ext. suffix ext (lower full_url)) unwanted_exts \<longrightarrow>
            full_url \<in> links (res s') \<and>
            queue s' =
              (if is_internal_link w full_url base_domain = Inr True \<and>
                  get_or (opt_crawl_pages opts) False \<and>
                  int (fcard (visited_urls s)) < max_pages opts \<and>
                  full_url |\<notin>| visited_urls s \<and> full_url \<notin> set (queue s)
               then queue s @ [full_url] else queue s)) \<and>
         (y \<in> accepted t (scrape_page w opts t page) \<longrightarrow>
            (prefix ''http://'' y \<or> prefix ''https://'' y) \<and>
            \<not> list_ex (\<lambda>ext. suffix ext (lower y)) unwanted_exts)"
proof -
  have "normalize_url w (strip a) base_url = Inr full_url \<and> \<not> is_valid_url full_url \<longrightarrow>
          s' = s \<and> r = Inr ()"
    using process_anchor_drops_invalid [of w a base_url full_url opts base_domain s] assms by auto
  then have dropped: "normalize_url w (strip a) base_url = Inr full_url \<and>
            (\<not> (prefix ''http://'' full_url \<or> prefix ''https://'' full_url) \<or>
             list_ex (\<lambda>ext. suffix ext (lower full_url)) unwanted_exts) \<longrightarrow>
            s' = s \<and> r = Inr ()"
    by (simp add: is_valid_url_iff)
  have added: "x \<in> links (res s') - links (res s) \<union> (internal_links (res s') - internal_links (res s)) \<union>
               (external_links (res s') - external_links (res s)) \<union> (set (queue s') - set (queue s)) \<longrightarrow>
            (prefix ''http://'' x \<or> prefix ''https://'' x) \<and>
            \<not> list_ex (\<lambda>ext. suffix ext (lower x)) unwanted_exts"
    using process_anchor_accepts_valid [OF assms, of x] by (simp add: is_valid_url_iff)
  have kept: "strip a \<noteq> [] \<and> \<not> prefix ''javascript:'' (strip a) \<and> \<not> prefix ''#'' (strip a) \<and>
          normalize_url w (strip a) base_url = Inr full_url \<and>
          (prefix ''http://'' full_url \<or> prefix ''https://'' full_url) \<and>
          \<not> list_ex (\<lambda>ext. suffix ext (lower full_url)) unwanted_exts \<longrightarrow>
            full_url \<in> links (res s') \<and>
            queue s' =
              (if is_internal_link w full_url base_domain = Inr True \<and>
                  get_or (opt_crawl_pages opts) False \<and>
                  int (fcard (visited_urls s)) < max_pages opts \<and>
                  full_url |\<notin>| visited_urls s \<and> full_url \<notin> set (queue s)
               then queue s @ [full_url] else queue s)"
    using process_anchor_keeps_valid [OF assms, of full_url] by (simp add: is_valid_url_iff)
  have page: "y \<in> accepted t (scrape_page w opts t page) \<longrightarrow>
            (prefix ''http://'' y \<or> prefix ''https://'' y) \<and>
            \<not> list_ex (\<lambda>ext. suffix ext (lower y)) unwanted_exts"
    using scrape_page_accepts_valid [of t w opts page]
    by (simp add: accepts_valid_def is_valid_url_iff)
  from added dropped kept page show ?thesis by (intro conjI)
qed

theorem only_valid_urls_are_kept_witness:
  "''https://example.com/page'' \<in>
      links (res (fst (process_anchor demo_world demo_opts ''https://example.com'' ''example.com''
                         demo_start ''https://example.com/page''))) - links (res demo_start) \<and>
   prefix ''https://'' ''https://example.com/page'' \<and>
   queue (fst (process_anchor demo_world demo_opts ''https://example.com'' ''example.com''
                 demo_start ''https://example.com/page'')) = [''https://example.com/page''] \<and>
   normalize_url demo_world (strip ''http://example.com/a?f=b.pdf'') ''https://example.com'' =
      Inr ''http://example.com/a?f=b.pdf'' \<and>
   list_ex (\<lambda>ext. suffix ext (lower ''http://example.com/a?f=b.pdf'')) unwanted_exts \<and>
   fst (process_anchor demo_world demo_opts ''https://example.com'' ''example.com''
          demo_start ''http://example.com/a?f=b.pdf'') = demo_start \<and>
   ''https://blog.example.com/b'' \<in> accepted demo_start
      (scrape_page demo_world demo_opts demo_start demo_seed) \<and>
   \<not> list_ex (\<lambda>ext. suffix ext (lower ''https://blog.example.com/b'')) unwanted_exts"
proof -
  have new: "''https://example.com/page'' \<in>
      links (res (fst (process_anchor demo_world demo_opts ''https://example.com'' ''example.com''
                         demo_start ''https://example.com/page''))) - links (res demo_start)"
    by code_simp
  have dropped: "normalize_url demo_world (strip ''http://example.com/a?f=b.pdf'') ''https://example.com'' =
      Inr ''http://example.com/a?f=b.pdf''"
    "list_ex (\<lambda>ext. suffix ext (lower ''http://example.com/a?f=b.pdf'')) unwanted_exts"
    by code_simp+
  have valid: "strip ''https://example.com/page'' \<noteq> []"
    "\<not> prefix ''javascript:'' (strip ''https://example.com/page'')"
    "\<not> prefix ''#'' (strip ''https://example.com/page'')"
    "normalize_url demo_world (strip ''https://example.com/page'') ''https://example.com'' =
       Inr ''https://example.com/page''"
    "prefix ''https://'' ''https://example.com/page''"
    "\<not> list_ex (\<lambda>ext. suffix ext (lower ''https://example.com/page'')) unwanted_exts"
    by code_simp+
  have enq: "is_internal_link demo_world ''https://example.com/page'' ''example.com'' = Inr True"
    "get_or (opt_crawl_pages demo_opts) False"
    "int (fcard (visited_urls demo_start)) < max_pages demo_opts"
    "''https://example.com/page'' |\<notin>| visited_urls demo_start"
    "''https://example.com/page'' \<notin> set (queue demo_start)" "queue demo_start = []"
    by code_simp+
  have found: "''https://blog.example.com/b'' \<in> accepted demo_start
      (scrape_page demo_world demo_opts demo_start demo_seed)"
    by code_simp
  have p1: "process_anchor demo_world demo_opts ''https://example.com'' ''example.com''
              demo_start ''https://example.com/page'' =
            (fst (process_anchor demo_world demo_opts ''https://example.com'' ''example.com''
                    demo_start ''https://example.com/page''),
             snd (process_anchor demo_world demo_opts ''https://example.com'' ''example.com''
                    demo_start ''https://example.com/page''))"
    by simp
  have p2: "process_anchor demo_world demo_opts ''https://example.com'' ''example.com''
              demo_start ''http://example.com/a?f=b.pdf'' =
            (fst (process_anchor demo_world demo_opts ''https://example.com'' ''example.com''
                    demo_start ''http://example.com/a?f=b.pdf''),
             snd (process_anchor demo_world demo_opts ''https://example.com'' ''example.com''
                    demo_start ''http://example.com/a?f=b.pdf''))"
    by simp
  note kept = only_valid_urls_are_kept [OF p1, where x = "''https://example.com/page''"
      and full_url = "''https://example.com/page''" and y = "''https://blog.example.com/b''"
      and t = demo_start and page = demo_seed]
  from kept new have a: "prefix ''https://'' ''https://example.com/page''" by (simp add: valid)
  from kept valid enq
  have b: "queue (fst (process_anchor demo_world demo_opts ''https://example.com'' ''example.com''
                 demo_start ''https://example.com/page'')) = [''https://example.com/page'']"
    by simp
  from kept found
  have c: "\<not> list_ex (\<lambda>ext. suffix ext (lower ''https://blog.example.com/b'')) unwanted_exts"
    by blast
  from only_valid_urls_are_kept [OF p2, where full_url = "''http://example.com/a?f=b.pdf''"] dropped
  have d: "fst (process_anchor demo_world demo_opts ''https://example.com'' ''example.com''
          demo_start ''http://example.com/a?f=b.pdf'') = demo_start"
    by blast
  from new a b c d dropped found show ?thesis by (intro conjI)
qed





























end
